theory Spec2Isabelle
  imports Complex_Main
begin

section \<open>Active-set QP solver of gtsam (linear/QPSolver.cpp)\<close>

text \<open>
  The development follows \<^verbatim>\<open>src/gtsam/linear/QPSolver.cpp\<close>. A \<^verbatim>\<open>double\<close> is read as a
  real number: every comparison and every arithmetic step of the source is kept, rounding,
  infinities and NaN are not represented. Containers are lists, the variable assignment
  \<^verbatim>\<open>VectorValues\<close> is a finite map from keys to vectors, shared pointers into the factor
  graph are addresses into an explicit store of factor objects.
\<close>

subsection \<open>Errors\<close>

text \<open>
  Every way in which a statement of the source can fail to produce its value is a
  value of \<open>error\<close>: the exception of a checked accessor (\<^verbatim>\<open>at\<close>), the dereference of
  an empty smart pointer, an Eigen index or size assertion, an iterator used at
  \<^verbatim>\<open>end()\<close>, and the failure of an external collaborator.
\<close>

datatype error =
    OutOfRange
  | NullPointer
  | IndexAssert
  | SizeAssert
  | EndIterator
  | External nat

definition bindE :: "error + 'a \<Rightarrow> ('a \<Rightarrow> error + 'b) \<Rightarrow> error + 'b" where
  "bindE m f = (case m of Inl e \<Rightarrow> Inl e | Inr x \<Rightarrow> f x)"

text \<open>A \<^verbatim>\<open>for\<close> loop over a container whose body may fail: the first failure ends it.\<close>

fun foldE :: "('a \<Rightarrow> 's \<Rightarrow> error + 's) \<Rightarrow> 'a list \<Rightarrow> 's \<Rightarrow> error + 's" where
  "foldE f [] st = Inr st"
| "foldE f (x # xs) st = bindE (f x st) (foldE f xs)"

subsection \<open>Vectors, matrices and assignments\<close>

type_synonym Key = nat
type_synonym Vector = "real list"

text \<open>A matrix is the list of its rows.\<close>

type_synonym Matrix = "real list list"

type_synonym VectorValues = "Key \<Rightarrow> Vector option"

definition vv_at :: "VectorValues \<Rightarrow> Key \<Rightarrow> error + Vector" where
  "vv_at v k = (case v k of None \<Rightarrow> Inl OutOfRange | Some x \<Rightarrow> Inr x)"

definition coeff :: "Vector \<Rightarrow> nat \<Rightarrow> error + real" where
  "coeff v i = (if i < length v then Inr (v ! i) else Inl IndexAssert)"

definition row :: "Matrix \<Rightarrow> nat \<Rightarrow> error + Vector" where
  "row M i = (if i < length M then Inr (M ! i) else Inl IndexAssert)"

definition dot :: "Vector \<Rightarrow> Vector \<Rightarrow> error + real" where
  "dot a b = (if length a = length b then Inr (sum_list (map2 (*) a b)) else Inl SizeAssert)"

definition zero :: "nat \<Rightarrow> Vector" where
  "zero n = replicate n 0"

definition vec_add :: "Vector \<Rightarrow> Vector \<Rightarrow> error + Vector" where
  "vec_add a b = (if length a = length b then Inr (map2 (+) a b) else Inl SizeAssert)"

definition vec_neg :: "Vector \<Rightarrow> Vector" where
  "vec_neg a = map uminus a"

definition cols :: "Matrix \<Rightarrow> nat" where
  "cols M = (case M of [] \<Rightarrow> 0 | r # _ \<Rightarrow> length r)"

definition mat_transpose :: "Matrix \<Rightarrow> Matrix" where
  "mat_transpose M = map (\<lambda>c. map (\<lambda>r. r ! c) M) [0..<cols M]"

definition mat_vec :: "Matrix \<Rightarrow> Vector \<Rightarrow> error + Vector" where
  "mat_vec M x =
     (if \<forall>r \<in> set M. length r = length x
      then Inr (map (\<lambda>r. sum_list (map2 (*) r x)) M) else Inl SizeAssert)"

subsection \<open>Noise models and factors\<close>

text \<open>
  The noise models the solver builds or reads, one constructor for each factory the
  source calls or receives. \<open>Diagonal_Precisions\<close> keeps the vector it was given.
\<close>

datatype noiseModel =
    Diagonal_Sigmas Vector
  | Diagonal_Precisions Vector
  | Constrained_MixedSigmas Vector
  | Unit_Create nat
  | Constrained_All nat

fun isConstrained :: "noiseModel \<Rightarrow> bool" where
  "isConstrained (Constrained_MixedSigmas _) = True"
| "isConstrained (Constrained_All _) = True"
| "isConstrained _ = False"

text \<open>
  The standard deviations of a model. A zero precision has an infinite standard
  deviation, which no real number is; the solver never reads the sigmas of a model it
  built from precisions.
\<close>

fun sigmas :: "noiseModel \<Rightarrow> Vector" where
  "sigmas (Diagonal_Sigmas s) = s"
| "sigmas (Diagonal_Precisions p) = map (\<lambda>x. 1 / sqrt x) p"
| "sigmas (Constrained_MixedSigmas s) = s"
| "sigmas (Unit_Create n) = replicate n 1"
| "sigmas (Constrained_All n) = replicate n 0"

definition dim :: "noiseModel \<Rightarrow> nat" where
  "dim m = length (sigmas m)"

text \<open>
  A row factor: one coefficient block per key, all with the same number of rows, the
  right-hand side, and an optional noise model holding one scale per row.
\<close>

record JacobianFactor =
  jkeys :: "Key list"
  jA :: "Matrix list"
  jb :: Vector
  jmodel :: "noiseModel option"

text \<open>
  Modelled from the spec: the class \<^verbatim>\<open>HessianFactor\<close> is not among the sources. It is the
  QuadraticFactor of the data model, "symmetric information sub-matrices per pair of
  touched variables, a linear term per touched variable", of which "only the
  upper-triangular block is stored": \<open>hinfo f i j\<close> is the stored block for the slots
  \<open>i \<le> j\<close> of the factor's own key ordering, \<open>hlinear f i\<close> the linear term of slot \<open>i\<close>.
\<close>

record HessianFactor =
  hkeys :: "Key list"
  hinfo :: "nat \<Rightarrow> nat \<Rightarrow> Matrix"
  hlinear :: "nat \<Rightarrow> Vector"

datatype GaussianFactor = Jacobian JacobianFactor | Hessian HessianFactor

fun keys :: "GaussianFactor \<Rightarrow> Key list" where
  "keys (Jacobian j) = jkeys j"
| "keys (Hessian h) = hkeys h"

text \<open>A factor graph as the source sees it through its smart pointers: \<open>None\<close> is an empty pointer.\<close>

type_synonym GaussianFactorGraph = "GaussianFactor option list"

definition graph_at :: "GaussianFactorGraph \<Rightarrow> nat \<Rightarrow> error + GaussianFactor option" where
  "graph_at g i = (if i < length g then Inr (g ! i) else Inl OutOfRange)"

text \<open>\<^verbatim>\<open>toJacobian\<close> is a dynamic cast: empty for an empty pointer and for a factor of another class.\<close>

fun toJacobian :: "GaussianFactor option \<Rightarrow> JacobianFactor option" where
  "toJacobian (Some (Jacobian j)) = Some j"
| "toJacobian _ = None"

definition deref :: "'a option \<Rightarrow> error + 'a" where
  "deref p = (case p of None \<Rightarrow> Inl NullPointer | Some x \<Rightarrow> Inr x)"

text \<open>The block of the key at position \<open>xj\<close>; the position \<open>end()\<close> has no block.\<close>

definition getA :: "JacobianFactor \<Rightarrow> nat \<Rightarrow> error + Matrix" where
  "getA f xj =
     (if xj < length (jkeys f) \<and> xj < length (jA f) then Inr (jA f ! xj) else Inl EndIterator)"

text \<open>
  The conversion of a \<^verbatim>\<open>size_t\<close> to the \<^verbatim>\<open>int\<close> in which the source reports an index:
  the value modulo \<open>2^32\<close>, read as a signed number.
\<close>

definition int_of_size_t :: "nat \<Rightarrow> int" where
  "int_of_size_t n = (let m = int n mod 4294967296 in if m < 2147483648 then m else m - 4294967296)"

subsection \<open>The store of factor objects\<close>

text \<open>
  A graph of the source is a vector of shared pointers to factor objects, and
  \<^verbatim>\<open>setModel\<close> mutates the object a pointer leads to. The objects live in a store, a
  pointer is an address or empty, and two graphs may hold the same address.
\<close>

type_synonym addr = nat
type_synonym store = "GaussianFactor list"
type_synonym graphRef = "addr option list"

definition load :: "store \<Rightarrow> addr \<Rightarrow> GaussianFactor option" where
  "load h a = (if a < length h then Some (h ! a) else None)"

definition view :: "store \<Rightarrow> graphRef \<Rightarrow> GaussianFactorGraph" where
  "view h g = map (\<lambda>p. case p of None \<Rightarrow> None | Some a \<Rightarrow> load h a) g"

definition ref_at :: "graphRef \<Rightarrow> nat \<Rightarrow> error + addr option" where
  "ref_at g i = (if i < length g then Inr (g ! i) else Inl OutOfRange)"

subsection \<open>The solver object\<close>

text \<open>
  Modelled from the spec: the class \<^verbatim>\<open>VariableIndex\<close> is not among the sources. It is the
  Variable Adjacency Index, a "mapping variable_id -> ordered set of factor indices",
  iterated in the order of the keys.
\<close>

type_synonym VariableIndex = "(Key \<times> nat list) list"

definition index_at :: "VariableIndex \<Rightarrow> Key \<Rightarrow> error + nat list" where
  "index_at vi k = (case map_of vi k of None \<Rightarrow> Inl OutOfRange | Some fs \<Rightarrow> Inr fs)"

text \<open>
  The members of the class, named as in the source without the trailing underscore;
  \<^verbatim>\<open>graph_\<close> is \<open>graph0\<close>. The theorems hold for every value of the members: what the
  constructor establishes is assumed only where it is said.
\<close>

record QPSolver =
  graph0 :: graphRef
  fullFactorIndices :: VariableIndex
  constraintIndices :: "nat list"
  freeHessians :: "HessianFactor list"
  freeHessianFactorIndex :: VariableIndex

subsection \<open>Worst-violation selection\<close>

definition worstRow ::
  "Vector \<Rightarrow> Vector \<Rightarrow> nat \<Rightarrow> nat \<Rightarrow> int \<times> int \<times> real \<Rightarrow> error + int \<times> int \<times> real" where
  "worstRow lambda orgSigmas factorIx j st =
     (case st of (worstFactorIx, worstSigmaIx, maxLambda) \<Rightarrow>
        if orgSigmas ! j < 0
        then bindE (coeff lambda j) (\<lambda>lj.
               if lj > maxLambda then Inr (int_of_size_t factorIx, int_of_size_t j, lj)
               else Inr st)
        else Inr st)"

definition worstFactor ::
  "GaussianFactorGraph \<Rightarrow> VectorValues \<Rightarrow> nat \<Rightarrow> int \<times> int \<times> real \<Rightarrow> error + int \<times> int \<times> real" where
  "worstFactor g lambdas factorIx st =
     bindE (vv_at lambdas factorIx) (\<lambda>lambda.
     bindE (graph_at g factorIx) (\<lambda>p.
     bindE (deref (toJacobian p)) (\<lambda>jf.
     bindE (deref (jmodel jf)) (\<lambda>m.
       foldE (worstRow lambda (sigmas m) factorIx) [0..<length (sigmas m)] st))))"

definition findWorstViolatedActiveIneq ::
  "QPSolver \<Rightarrow> store \<Rightarrow> VectorValues \<Rightarrow> error + int \<times> int" where
  "findWorstViolatedActiveIneq solver h lambdas =
     bindE (foldE (worstFactor (view h (graph0 solver)) lambdas) (constraintIndices solver) (- 1, - 1, 0))
       (\<lambda>(worstFactorIx, worstSigmaIx, maxLambda). Inr (worstFactorIx, worstSigmaIx))"

subsection \<open>Working-set update\<close>

text \<open>
  Modelled from the spec: \<^verbatim>\<open>JacobianFactor::setModel(bool, Vector)\<close> is not among the
  sources. The update "set[s] the row's scale" in the working copy: the factor object
  gets a constrained model holding the given scales.
\<close>

definition setModel :: "JacobianFactor \<Rightarrow> Vector \<Rightarrow> JacobianFactor" where
  "setModel jf newSigmas = jf\<lparr>jmodel := Some (Constrained_MixedSigmas newSigmas)\<rparr>"

definition updateWorkingSetInplace ::
  "store \<Rightarrow> graphRef \<Rightarrow> int \<Rightarrow> int \<Rightarrow> real \<Rightarrow> error + bool \<times> store" where
  "updateWorkingSetInplace h workingGraph factorIx sigmaIx newSigma =
     (if factorIx < 0 \<or> sigmaIx < 0 then Inr (False, h)
      else
        bindE (ref_at workingGraph (nat factorIx)) (\<lambda>p.
        bindE (deref p) (\<lambda>a.
        bindE (deref (toJacobian (load h a))) (\<lambda>jf.
        bindE (deref (jmodel jf)) (\<lambda>m.
          if nat sigmaIx < length (sigmas m)
          then Inr (True, h[a := Jacobian (setModel jf ((sigmas m)[nat sigmaIx := newSigma]))])
          else Inl IndexAssert)))))"

subsection \<open>Ratio test\<close>

text \<open>The accumulation \<^verbatim>\<open>ajTp += aj.dot(pj)\<close> over the keys of a factor, for row \<open>s\<close>.\<close>

definition rowDotStep :: "JacobianFactor \<Rightarrow> nat \<Rightarrow> VectorValues \<Rightarrow> nat \<Rightarrow> real \<Rightarrow> error + real" where
  "rowDotStep jacobian s v xj acc =
     bindE (vv_at v (jkeys jacobian ! xj)) (\<lambda>pj.
     bindE (getA jacobian xj) (\<lambda>Aj.
     bindE (row Aj s) (\<lambda>aj.
     bindE (dot aj pj) (\<lambda>d. Inr (acc + d)))))"

definition rowDot :: "JacobianFactor \<Rightarrow> nat \<Rightarrow> VectorValues \<Rightarrow> error + real" where
  "rowDot jacobian s v = foldE (rowDotStep jacobian s v) [0..<length (jkeys jacobian)] 0"

definition stepRow ::
  "JacobianFactor \<Rightarrow> Vector \<Rightarrow> Vector \<Rightarrow> VectorValues \<Rightarrow> VectorValues \<Rightarrow> nat \<Rightarrow> nat \<Rightarrow>
     real \<times> int \<times> int \<Rightarrow> error + real \<times> int \<times> int" where
  "stepRow jacobian sgs b xk p factorIx s st =
     (case st of (minAlpha, closestFactorIx, closestSigmaIx) \<Rightarrow>
        if sgs ! s < 0
        then bindE (rowDot jacobian s p) (\<lambda>ajTp.
               if ajTp \<le> 0 then Inr st
               else bindE (rowDot jacobian s xk) (\<lambda>ajTx.
                    bindE (coeff b s) (\<lambda>bs.
                      let alpha = (bs - ajTx) / ajTp in
                      if alpha < minAlpha
                      then Inr (alpha, int_of_size_t factorIx, int_of_size_t s)
                      else Inr st)))
        else Inr st)"

definition stepFactor ::
  "GaussianFactorGraph \<Rightarrow> VectorValues \<Rightarrow> VectorValues \<Rightarrow> nat \<Rightarrow>
     real \<times> int \<times> int \<Rightarrow> error + real \<times> int \<times> int" where
  "stepFactor workingGraph xk p factorIx st =
     bindE (graph_at workingGraph factorIx) (\<lambda>q.
     bindE (deref (toJacobian q)) (\<lambda>jacobian.
     bindE (deref (jmodel jacobian)) (\<lambda>m.
       foldE (stepRow jacobian (sigmas m) (jb jacobian) xk p factorIx) [0..<length (sigmas m)] st)))"

definition computeStepSize ::
  "QPSolver \<Rightarrow> GaussianFactorGraph \<Rightarrow> VectorValues \<Rightarrow> VectorValues \<Rightarrow> error + real \<times> int \<times> int" where
  "computeStepSize solver workingGraph xk p =
     foldE (stepFactor workingGraph xk p) (constraintIndices solver) (1, - 1, - 1)"

subsection \<open>External collaborators\<close>

text \<open>
  The linear solve, the conversion of a row factor to a quadratic factor and the
  arithmetic on assignments are library code outside the solver. They are parameters:
  \<open>hessianOf\<close> is the constructor \<^verbatim>\<open>HessianFactor(const JacobianFactor&)\<close>,
  \<open>optimize_graph\<close> is \<^verbatim>\<open>GaussianFactorGraph::optimize\<close>, \<open>vv_equals\<close> is
  \<^verbatim>\<open>VectorValues::equals\<close>, \<open>vv_sub\<close>, \<open>vv_add\<close> and \<open>vv_scale\<close> are the operators
  \<^verbatim>\<open>-\<close>, \<^verbatim>\<open>+\<close> and \<^verbatim>\<open>*\<close> of \<^verbatim>\<open>VectorValues\<close>.
\<close>

record externals =
  hessianOf :: "JacobianFactor \<Rightarrow> HessianFactor"
  optimize_graph :: "GaussianFactorGraph \<Rightarrow> error + VectorValues"
  vv_equals :: "VectorValues \<Rightarrow> VectorValues \<Rightarrow> real \<Rightarrow> bool"
  vv_sub :: "VectorValues \<Rightarrow> VectorValues \<Rightarrow> error + VectorValues"
  vv_add :: "VectorValues \<Rightarrow> VectorValues \<Rightarrow> error + VectorValues"
  vv_scale :: "real \<Rightarrow> VectorValues \<Rightarrow> VectorValues"

subsection \<open>Cost-subgraph aggregator\<close>

text \<open>
  Modelled from the spec: the constructor of \<^verbatim>\<open>VariableIndex\<close> is not among the sources.
  It "maps each variable id to the set of factor indices touching it", a "pure function
  of the graph's factor list".
\<close>

definition touches :: "GaussianFactorGraph \<Rightarrow> Key \<Rightarrow> nat \<Rightarrow> bool" where
  "touches g k i = (case g ! i of None \<Rightarrow> False | Some f \<Rightarrow> k \<in> set (keys f))"

definition allKeys :: "GaussianFactorGraph \<Rightarrow> Key list" where
  "allKeys g = sort (remdups (concat (map (\<lambda>q. case q of None \<Rightarrow> [] | Some f \<Rightarrow> keys f) g)))"

definition VariableIndex_of :: "GaussianFactorGraph \<Rightarrow> VariableIndex" where
  "VariableIndex_of g = map (\<lambda>k. (k, filter (touches g k) [0..<length g])) (allKeys g)"

text \<open>A \<^verbatim>\<open>FastSet\<close> is an ordered set: a sorted list without repetition.\<close>

definition fastset_insert :: "nat \<Rightarrow> nat list \<Rightarrow> nat list" where
  "fastset_insert x xs = (if x \<in> set xs then xs else insort x xs)"

definition collectFactors :: "VariableIndex \<Rightarrow> Key \<Rightarrow> nat list \<Rightarrow> error + nat list" where
  "collectFactors variableIndex key factors =
     bindE (index_at variableIndex key) (\<lambda>factorsOfThisVar.
       Inr (fold fastset_insert factorsOfThisVar factors))"

text \<open>
  The loop over the scales of a constrained factor, lines 70 to 76: the state is the
  vector \<open>newPrecisions\<close> and the flag \<open>mixed\<close>.
\<close>

definition precisionStep :: "Vector \<Rightarrow> nat \<Rightarrow> Vector \<times> bool \<Rightarrow> Vector \<times> bool" where
  "precisionStep sgs s st =
     (case st of (newPrecisions, mixed) \<Rightarrow>
        if sgs ! s \<le> 1 / 1000000000 then (newPrecisions[s := 0], mixed)
        else (newPrecisions[s := 1 / (sgs ! s)], True))"

definition newPrecisionsOf :: "Vector \<Rightarrow> Vector \<times> bool" where
  "newPrecisionsOf sgs = fold (precisionStep sgs) [0..<length sgs] (replicate (length sgs) 0, False)"

definition graph_idx :: "GaussianFactorGraph \<Rightarrow> nat \<Rightarrow> error + GaussianFactor option" where
  "graph_idx g i = (if i < length g then Inr (g ! i) else Inl IndexAssert)"

text \<open>The body of the loop of lines 59 to 92 for one factor index.\<close>

definition hessianStep ::
  "externals \<Rightarrow> GaussianFactorGraph \<Rightarrow> nat \<Rightarrow> HessianFactor list \<Rightarrow> error + HessianFactor list" where
  "hessianStep ext graph factorIndex hfg =
     bindE (graph_idx graph factorIndex) (\<lambda>q.
       case q of
         None \<Rightarrow> Inr hfg
       | Some (Jacobian jf) \<Rightarrow>
           (case jmodel jf of
              None \<Rightarrow> Inr (hfg @ [hessianOf ext jf])
            | Some m \<Rightarrow>
                if isConstrained m
                then (case newPrecisionsOf (sigmas m) of (newPrecisions, mixed) \<Rightarrow>
                        if mixed
                        then Inr (hfg @ [hessianOf ext (jf\<lparr>jmodel := Some (Diagonal_Precisions newPrecisions)\<rparr>)])
                        else Inr hfg)
                else Inr (hfg @ [hessianOf ext jf]))
       | Some (Hessian hf) \<Rightarrow> Inr (hfg @ [hf]))"

definition unconstrainedHessiansOfConstrainedVars ::
  "externals \<Rightarrow> GaussianFactorGraph \<Rightarrow> Key list \<Rightarrow> error + HessianFactor list" where
  "unconstrainedHessiansOfConstrainedVars ext graph constrainedVars =
     bindE (foldE (collectFactors (VariableIndex_of graph)) constrainedVars []) (\<lambda>factors.
       foldE (hessianStep ext graph) factors [])"

subsection \<open>The constructor\<close>

text \<open>
  Lines 16 to 40. The bound \<^verbatim>\<open>graph.nrFactors()\<close> of the first loop is library code and a
  parameter here; \<^verbatim>\<open>graph.at(i)\<close> fails beyond the size of the graph.
\<close>

definition isConstraintFactor :: "GaussianFactorGraph \<Rightarrow> nat \<Rightarrow> bool" where
  "isConstraintFactor graph i =
     (case toJacobian (graph ! i) of
        None \<Rightarrow> False
      | Some jacobian \<Rightarrow> (case jmodel jacobian of None \<Rightarrow> False | Some m \<Rightarrow> isConstrained m))"

definition insertKeys :: "GaussianFactorGraph \<Rightarrow> nat \<Rightarrow> Key list \<Rightarrow> Key list" where
  "insertKeys graph index constrainedVars =
     (case graph ! index of None \<Rightarrow> constrainedVars | Some f \<Rightarrow> fold fastset_insert (keys f) constrainedVars)"

definition QPSolver_new :: "externals \<Rightarrow> nat \<Rightarrow> store \<Rightarrow> graphRef \<Rightarrow> error + QPSolver" where
  "QPSolver_new ext nrFactors h g =
     (if length g < nrFactors then Inl OutOfRange
      else
        let graph = view h g;
            indices = filter (isConstraintFactor graph) [0..<nrFactors];
            constrainedVars = fold (insertKeys graph) indices []
        in bindE (unconstrainedHessiansOfConstrainedVars ext graph constrainedVars) (\<lambda>hfg.
             Inr \<lparr>graph0 = g, fullFactorIndices = VariableIndex_of graph,
                  constraintIndices = indices, freeHessians = hfg,
                  freeHessianFactorIndex = VariableIndex_of (map (\<lambda>f. Some (Hessian f)) hfg)\<rparr>))"

subsection \<open>Dual graph\<close>

text \<open>
  Modelled from the spec: the accessors of \<^verbatim>\<open>HessianFactor\<close> are not among the sources.
  \<open>hfind\<close> is the position of a key in the factor's own ordering, the number of keys
  (\<^verbatim>\<open>end()\<close>) when the factor does not have the key; a block, a linear term or a
  dimension read at \<^verbatim>\<open>end()\<close> is not a value of the model. The dimension of a slot is
  the number of rows of its diagonal block.
\<close>

definition hfind :: "HessianFactor \<Rightarrow> Key \<Rightarrow> nat" where
  "hfind f k = length (takeWhile (\<lambda>x. x \<noteq> k) (hkeys f))"

definition jfind :: "JacobianFactor \<Rightarrow> Key \<Rightarrow> nat" where
  "jfind f k = length (takeWhile (\<lambda>x. x \<noteq> k) (jkeys f))"

definition getDim :: "HessianFactor \<Rightarrow> nat \<Rightarrow> error + nat" where
  "getDim f i = (if i < length (hkeys f) then Inr (length (hinfo f i i)) else Inl EndIterator)"

definition info :: "HessianFactor \<Rightarrow> nat \<Rightarrow> nat \<Rightarrow> error + Matrix" where
  "info f i j =
     (if i < length (hkeys f) \<and> j < length (hkeys f) then Inr (hinfo f i j) else Inl EndIterator)"

definition linearTerm :: "HessianFactor \<Rightarrow> nat \<Rightarrow> error + Vector" where
  "linearTerm f i = (if i < length (hkeys f) then Inr (hlinear f i) else Inl EndIterator)"

definition hess_at :: "HessianFactor list \<Rightarrow> nat \<Rightarrow> error + HessianFactor" where
  "hess_at hfg i = (if i < length hfg then Inr (hfg ! i) else Inl OutOfRange)"

text \<open>Lines 125 to 140: one step of the sum over the keys \<open>xj\<close> of a factor.\<close>

definition gradTerm ::
  "HessianFactor \<Rightarrow> nat \<Rightarrow> VectorValues \<Rightarrow> nat \<Rightarrow> Vector \<Rightarrow> error + Vector" where
  "gradTerm factor xi x0 xj gradf_xi =
     bindE (if xi > xj
            then bindE (info factor xj xi) (\<lambda>Gji. Inr (mat_transpose Gji))
            else info factor xi xj) (\<lambda>Gij.
     bindE (vv_at x0 (hkeys factor ! xj)) (\<lambda>x0_j.
     bindE (mat_vec Gij x0_j) (\<lambda>v.
       vec_add gradf_xi v)))"

text \<open>
  Lines 121 to 143: the contribution of one factor of \<open>xiFactors\<close>. The cost subgraph is a
  list of quadratic factors, so the cast \<^verbatim>\<open>toHessian\<close> of line 122 is the identity.
\<close>

definition gradFactor ::
  "HessianFactor list \<Rightarrow> Key \<Rightarrow> VectorValues \<Rightarrow> nat \<Rightarrow> Vector \<Rightarrow> error + Vector" where
  "gradFactor hfg xiKey x0 factorIx gradf_xi =
     bindE (hess_at hfg factorIx) (\<lambda>factor.
     bindE (foldE (gradTerm factor (hfind factor xiKey) x0) [0..<length (hkeys factor)] gradf_xi) (\<lambda>g.
     bindE (linearTerm factor (hfind factor xiKey)) (\<lambda>gi.
       vec_add g (vec_neg gi))))"

text \<open>Lines 111 to 114: the dimension of \<open>xi\<close>, read from the factor at index \<open>0\<close>.\<close>

definition xiDimOf :: "HessianFactor list \<Rightarrow> Key \<Rightarrow> error + nat" where
  "xiDimOf hfg xiKey =
     bindE (hess_at hfg 0) (\<lambda>xiFactor0. getDim xiFactor0 (hfind xiFactor0 xiKey))"

definition gradf :: "HessianFactor list \<Rightarrow> Key \<Rightarrow> nat list \<Rightarrow> VectorValues \<Rightarrow> error + Vector" where
  "gradf hfg xiKey xiFactors x0 =
     bindE (xiDimOf hfg xiKey) (\<lambda>xiDim.
       foldE (gradFactor hfg xiKey x0) xiFactors (zero xiDim))"

definition set_col_zero :: "Matrix \<Rightarrow> nat \<Rightarrow> error + Matrix" where
  "set_col_zero M c = (if c < cols M then Inr (map (\<lambda>r. r[c := 0]) M) else Inl IndexAssert)"

text \<open>Lines 161 to 169: the rows of a constrained factor that carry no dual information.\<close>

definition lambdaSigma ::
  "Vector \<Rightarrow> nat \<Rightarrow> nat \<Rightarrow> Matrix \<times> (nat \<times> nat) list \<Rightarrow> error + Matrix \<times> (nat \<times> nat) list" where
  "lambdaSigma sgs factorIndex sigmaIx st =
     (case st of (A_k, unconstrainedIndex) \<Rightarrow>
        if \<bar>sgs ! sigmaIx\<bar> > 1 / 1000000000
        then bindE (set_col_zero A_k sigmaIx) (\<lambda>A'.
               Inr (A', unconstrainedIndex @ [(factorIndex, sigmaIx)]))
        else Inr st)"

text \<open>Lines 152 to 172: the body of the loop over the factors of the graph on \<open>xiKey\<close>.\<close>

definition lambdaStep ::
  "GaussianFactorGraph \<Rightarrow> Key \<Rightarrow> nat \<Rightarrow> (Key \<times> Matrix) list \<times> (nat \<times> nat) list \<Rightarrow>
     error + (Key \<times> Matrix) list \<times> (nat \<times> nat) list" where
  "lambdaStep graph xiKey factorIndex st =
     (case st of (lambdaTerms, unconstrainedIndex) \<Rightarrow>
        bindE (graph_at graph factorIndex) (\<lambda>q.
          case toJacobian q of
            None \<Rightarrow> Inr st
          | Some factor \<Rightarrow>
              (case jmodel factor of
                 None \<Rightarrow> Inr st
               | Some m \<Rightarrow>
                   if \<not> isConstrained m then Inr st
                   else
                     bindE (getA factor (jfind factor xiKey)) (\<lambda>A.
                     bindE (foldE (lambdaSigma (sigmas m) factorIndex) [0..<length (sigmas m)]
                              (mat_transpose A, unconstrainedIndex)) (\<lambda>(A_k, unconstrainedIndex').
                       Inr (lambdaTerms @ [(factorIndex, A_k)], unconstrainedIndex'))))))"

text \<open>Lines 189 to 198: the zero prior on one multiplier component.\<close>

definition zeros :: "nat \<Rightarrow> nat \<Rightarrow> Matrix" where
  "zeros m n = replicate m (replicate n 0)"

definition priorStep ::
  "GaussianFactorGraph \<Rightarrow> nat \<times> nat \<Rightarrow> GaussianFactorGraph \<Rightarrow> error + GaussianFactorGraph" where
  "priorStep graph factorIx_sigmaIx dualGraph =
     (case factorIx_sigmaIx of (factorIx, sigmaIx) \<Rightarrow>
        bindE (graph_at graph factorIx) (\<lambda>q.
        bindE (deref (toJacobian q)) (\<lambda>factor.
        bindE (deref (jmodel factor)) (\<lambda>m.
          if sigmaIx < dim m
          then Inr (dualGraph @ [Some (Jacobian
                 \<lparr>jkeys = [factorIx],
                  jA = [(zeros (dim m) (dim m))[sigmaIx := (replicate (dim m) 0)[sigmaIx := 1]]],
                  jb = zero (dim m), jmodel = None\<rparr>)])
          else Inl IndexAssert))))"

text \<open>Lines 107 to 199: the body of the loop over the variables of the cost subgraph.\<close>

definition dualStep ::
  "QPSolver \<Rightarrow> GaussianFactorGraph \<Rightarrow> VectorValues \<Rightarrow> bool \<Rightarrow> Key \<times> nat list \<Rightarrow>
     GaussianFactorGraph \<Rightarrow> error + GaussianFactorGraph" where
  "dualStep solver graph x0 useLeastSquare xiKey_factors dualGraph =
     (case xiKey_factors of (xiKey, xiFactors) \<Rightarrow>
        if length xiFactors = 0 then Inr dualGraph
        else
          bindE (gradf (freeHessians solver) xiKey xiFactors x0) (\<lambda>gradf_xi.
          bindE (index_at (fullFactorIndices solver) xiKey) (\<lambda>fs.
          bindE (foldE (lambdaStep graph xiKey) fs ([], [])) (\<lambda>(lambdaTerms, unconstrainedIndex).
            foldE (priorStep graph) unconstrainedIndex
              (dualGraph @ [Some (Jacobian
                 \<lparr>jkeys = map fst lambdaTerms, jA = map snd lambdaTerms, jb = gradf_xi,
                  jmodel = Some (if useLeastSquare then Unit_Create (length gradf_xi)
                                 else Constrained_All (length gradf_xi))\<rparr>)])))))"

definition buildDualGraph ::
  "QPSolver \<Rightarrow> GaussianFactorGraph \<Rightarrow> VectorValues \<Rightarrow> bool \<Rightarrow> error + GaussianFactorGraph" where
  "buildDualGraph solver graph x0 useLeastSquare =
     foldE (dualStep solver graph x0 useLeastSquare) (freeHessianFactorIndex solver) []"

subsection \<open>The driver\<close>

text \<open>
  Modelled from the spec: the declaration of \<^verbatim>\<open>buildDualGraph\<close>, with the default of
  its last parameter, is not among the sources. The dual system is "solved either as an
  exact (equality-type) system [...] or, when an approximate least-squares fallback is
  requested", as a unit-weighted row: without a request it is the exact one.
\<close>

definition useLeastSquare_default :: bool where
  "useLeastSquare_default = False"

text \<open>
  One iteration. The result is the returned flag together with the store and the
  current solution, the two objects the source takes by mutable reference.
\<close>

definition iterateInPlace ::
  "externals \<Rightarrow> QPSolver \<Rightarrow> store \<Rightarrow> graphRef \<Rightarrow> VectorValues \<Rightarrow>
     error + bool \<times> store \<times> VectorValues" where
  "iterateInPlace ext solver h workingGraph currentSolution =
     bindE (optimize_graph ext (view h workingGraph)) (\<lambda>newSolution.
       if vv_equals ext newSolution currentSolution (1 / 100000)
       then
         bindE (buildDualGraph solver (view h workingGraph) newSolution useLeastSquare_default)
           (\<lambda>dualGraph.
         bindE (optimize_graph ext dualGraph) (\<lambda>lambdas.
         bindE (findWorstViolatedActiveIneq solver h lambdas) (\<lambda>(factorIx, sigmaIx).
         bindE (updateWorkingSetInplace h workingGraph factorIx sigmaIx (- 1)) (\<lambda>(updated, h').
           if \<not> updated then Inr (True, h', currentSolution)
           else Inr (False, h', currentSolution)))))
       else
         bindE (vv_sub ext newSolution currentSolution) (\<lambda>p.
         bindE (computeStepSize solver (view h workingGraph) currentSolution p)
           (\<lambda>(alpha, factorIx, sigmaIx).
         bindE (updateWorkingSetInplace h workingGraph factorIx sigmaIx 0) (\<lambda>(updated, h').
         bindE (vv_add ext currentSolution (vv_scale ext alpha p)) (\<lambda>currentSolution'.
           Inr (False, h', currentSolution'))))))"

text \<open>
  Modelled from the spec: \<^verbatim>\<open>GaussianFactorGraph::clone\<close> is not among the sources. "The
  working graph is a value copy created once per optimize call": every factor object of
  the graph is copied to a new address of the store, an empty pointer stays empty.
\<close>

fun cloneFrom :: "store \<Rightarrow> store \<Rightarrow> graphRef \<Rightarrow> store \<times> graphRef" where
  "cloneFrom src h [] = (h, [])"
| "cloneFrom src h (None # ps) = (case cloneFrom src h ps of (h', g) \<Rightarrow> (h', None # g))"
| "cloneFrom src h (Some a # ps) =
     (case load src a of
        None \<Rightarrow> (case cloneFrom src h ps of (h', g) \<Rightarrow> (h', None # g))
      | Some f \<Rightarrow> (case cloneFrom src (h @ [f]) ps of (h', g) \<Rightarrow> (h', Some (length h) # g)))"

definition clone :: "store \<Rightarrow> graphRef \<Rightarrow> store \<times> graphRef" where
  "clone h g = cloneFrom h h g"

text \<open>
  The loop of \<open>optimize\<close> may run forever. It is given a number of iterations it may use:
  \<open>None\<close> says that they did not suffice.
\<close>

fun optimize_loop ::
  "nat \<Rightarrow> externals \<Rightarrow> QPSolver \<Rightarrow> store \<Rightarrow> graphRef \<Rightarrow> VectorValues \<Rightarrow>
     (error + store \<times> VectorValues) option" where
  "optimize_loop 0 ext solver h workingGraph currentSolution = None"
| "optimize_loop (Suc n) ext solver h workingGraph currentSolution =
     (case iterateInPlace ext solver h workingGraph currentSolution of
        Inl e \<Rightarrow> Some (Inl e)
      | Inr (converged, h', currentSolution') \<Rightarrow>
          if converged then Some (Inr (h', currentSolution'))
          else optimize_loop n ext solver h' workingGraph currentSolution')"

definition optimize ::
  "nat \<Rightarrow> externals \<Rightarrow> QPSolver \<Rightarrow> store \<Rightarrow> VectorValues \<Rightarrow>
     (error + store \<times> VectorValues) option" where
  "optimize n ext solver h initials =
     (case clone h (graph0 solver) of (h', workingGraph) \<Rightarrow>
        optimize_loop n ext solver h' workingGraph initials)"

text \<open>
  The states the loop of \<open>optimize\<close> goes through on the working graph \<open>wg\<close>: the store
  and the current solution after any number of iterations, whether or not the loop ends.
\<close>

inductive iterates ::
  "externals \<Rightarrow> QPSolver \<Rightarrow> graphRef \<Rightarrow> store \<times> VectorValues \<Rightarrow> store \<times> VectorValues \<Rightarrow> bool"
  for ext solver wg s where
    start: "iterates ext solver wg s s"
  | step: "iterates ext solver wg s (h1, c1) \<Longrightarrow>
      iterateInPlace ext solver h1 wg c1 = Inr (r, h2, c2) \<Longrightarrow>
      iterates ext solver wg s (h2, c2)"

subsection \<open>Notions used to state the properties\<close>

text \<open>
  An inactive inequality row of the working graph: row \<open>s\<close> of the row factor at index
  \<open>f\<close> has a negative scale in the working copy; \<open>ap\<close> is \<open>a_row \<cdot> p\<close>, \<open>ax\<close> is
  \<open>a_row \<cdot> x_k\<close> and \<open>bs\<close> is \<open>b_row\<close>.
\<close>

definition inactiveRow ::
  "GaussianFactorGraph \<Rightarrow> VectorValues \<Rightarrow> VectorValues \<Rightarrow> nat \<Rightarrow> nat \<Rightarrow> real \<Rightarrow> real \<Rightarrow> real \<Rightarrow> bool" where
  "inactiveRow wg xk p f s ap ax bs \<longleftrightarrow>
     (\<exists>jf m. graph_at wg f = Inr (Some (Jacobian jf)) \<and> jmodel jf = Some m \<and>
        s < length (sigmas m) \<and> sigmas m ! s < 0 \<and>
        rowDot jf s p = Inr ap \<and> rowDot jf s xk = Inr ax \<and> coeff (jb jf) s = Inr bs)"

text \<open>
  The result of the ratio test is either the initial triple, or a candidate below \<open>1\<close>
  together with the indices of the row it comes from.
\<close>

definition attained :: "nat list \<Rightarrow> GaussianFactorGraph \<Rightarrow> VectorValues \<Rightarrow> VectorValues \<Rightarrow> real \<times> int \<times> int \<Rightarrow> bool" where
  "attained idxs wg xk p st \<longleftrightarrow>
     st = (1, - 1, - 1) \<or>
     (fst st < 1 \<and> (\<exists>f \<in> set idxs. \<exists>s ap ax bs. inactiveRow wg xk p f s ap ax bs \<and> 0 < ap \<and>
         st = ((bs - ax) / ap, int_of_size_t f, int_of_size_t s)))"

text \<open>
  The block structure the ratio test reads: one block per key with one row per scale,
  and an assignment that has every key of the factor with a vector as long as the rows
  of the key's block.
\<close>

definition rowsReadable :: "JacobianFactor \<Rightarrow> noiseModel \<Rightarrow> VectorValues \<Rightarrow> bool" where
  "rowsReadable jf m v \<longleftrightarrow>
     length (jA jf) = length (jkeys jf) \<and>
     (\<forall>j < length (jkeys jf). length (jA jf ! j) = length (sigmas m) \<and>
        (\<exists>x. v (jkeys jf ! j) = Some x \<and> (\<forall>r \<in> set (jA jf ! j). length r = length x)))"

definition stepsize_wf :: "QPSolver \<Rightarrow> GaussianFactorGraph \<Rightarrow> VectorValues \<Rightarrow> VectorValues \<Rightarrow> bool" where
  "stepsize_wf solver wg xk p \<longleftrightarrow>
     (\<forall>f \<in> set (constraintIndices solver). \<exists>jf m.
        graph_at wg f = Inr (Some (Jacobian jf)) \<and> jmodel jf = Some m \<and>
        length (jb jf) = length (sigmas m) \<and> rowsReadable jf m xk \<and> rowsReadable jf m p)"

text \<open>
  The candidate of a row: the row is an inactive inequality row with \<open>a_row \<cdot> p > 0\<close>, and
  \<open>c\<close> is \<open>(b_row - a_row \<cdot> x_k) / (a_row \<cdot> p)\<close>.
\<close>

definition stepCandidate ::
  "GaussianFactorGraph \<Rightarrow> VectorValues \<Rightarrow> VectorValues \<Rightarrow> nat \<Rightarrow> nat \<Rightarrow> real \<Rightarrow> bool" where
  "stepCandidate wg xk p f s c \<longleftrightarrow>
     (\<exists>ap ax bs. inactiveRow wg xk p f s ap ax bs \<and> 0 < ap \<and> c = (bs - ax) / ap)"

text \<open>
  The state of the ratio test after the rows \<open>D\<close> have been scanned: the step is at most
  every candidate of \<open>D\<close>, and it is either the initial \<open>1\<close> with the pair \<open>(-1, -1)\<close>, or
  below \<open>1\<close> and the candidate of the reported row, which is the first row of \<open>D\<close> that
  has it.
\<close>

definition stepInv ::
  "GaussianFactorGraph \<Rightarrow> VectorValues \<Rightarrow> VectorValues \<Rightarrow> (nat \<times> nat) set \<Rightarrow>
     real \<times> int \<times> int \<Rightarrow> bool" where
  "stepInv wg xk p D st \<longleftrightarrow>
     (\<forall>f s c. (f, s) \<in> D \<and> stepCandidate wg xk p f s c \<longrightarrow> fst st \<le> c) \<and>
     (st = (1, - 1, - 1) \<or>
      (fst st < 1 \<and>
       (\<exists>f s. (f, s) \<in> D \<and> stepCandidate wg xk p f s (fst st) \<and>
          fst (snd st) = int_of_size_t f \<and> snd (snd st) = int_of_size_t s \<and>
          (\<forall>f' s' c'. (f', s') \<in> D \<and> stepCandidate wg xk p f' s' c' \<and>
             (f' < f \<or> f' = f \<and> s' < s) \<longrightarrow> fst st < c'))))"

text \<open>
  An inequality row of the original graph with its multiplier: row \<open>j\<close> of the row factor
  at index \<open>f\<close> of the graph \<open>g\<close> has a negative scale, and \<open>l\<close> is component \<open>j\<close> of the
  multiplier vector stored under the key \<open>f\<close>.
\<close>

definition ineqRow :: "GaussianFactorGraph \<Rightarrow> VectorValues \<Rightarrow> nat \<Rightarrow> nat \<Rightarrow> real \<Rightarrow> bool" where
  "ineqRow g lambdas f j l \<longleftrightarrow>
     (\<exists>jf m lam. graph_at g f = Inr (Some (Jacobian jf)) \<and> jmodel jf = Some m \<and>
        j < length (sigmas m) \<and> sigmas m ! j < 0 \<and> lambdas f = Some lam \<and> coeff lam j = Inr l)"

text \<open>What the selection reads: a row factor with a model and a long enough multiplier vector.\<close>

definition worst_wf :: "QPSolver \<Rightarrow> store \<Rightarrow> VectorValues \<Rightarrow> bool" where
  "worst_wf solver h lambdas \<longleftrightarrow>
     (\<forall>f \<in> set (constraintIndices solver). \<exists>jf m lam.
        graph_at (view h (graph0 solver)) f = Inr (Some (Jacobian jf)) \<and> jmodel jf = Some m \<and>
        lambdas f = Some lam \<and> length (sigmas m) \<le> length lam)"

text \<open>
  The state of the selection after the rows \<open>D\<close> have been scanned: the largest
  multiplier seen so far bounds every multiplier of \<open>D\<close>, and it is either the initial
  \<open>0\<close> with the pair \<open>(-1, -1)\<close>, or positive and the multiplier of the reported row, which
  is the first row of \<open>D\<close> that has it.
\<close>

definition worstInv ::
  "GaussianFactorGraph \<Rightarrow> VectorValues \<Rightarrow> (nat \<times> nat) set \<Rightarrow> int \<times> int \<times> real \<Rightarrow> bool" where
  "worstInv g lambdas D st \<longleftrightarrow>
     (\<forall>f j l. (f, j) \<in> D \<and> ineqRow g lambdas f j l \<longrightarrow> l \<le> snd (snd st)) \<and>
     (st = (- 1, - 1, 0) \<or>
      (0 < snd (snd st) \<and>
       (\<exists>f j. (f, j) \<in> D \<and> ineqRow g lambdas f j (snd (snd st)) \<and>
          fst st = int_of_size_t f \<and> fst (snd st) = int_of_size_t j \<and>
          (\<forall>f' j' l'. (f', j') \<in> D \<and> ineqRow g lambdas f' j' l' \<and>
             (f' < f \<or> f' = f \<and> j' < j) \<longrightarrow> l' < snd (snd st)))))"

text \<open>
  The unconstrained gradient in the words of the specification. \<open>G_block F i j\<close> is the
  information block \<open>G_{i,j}\<close> of the factor \<open>F\<close>: the stored block when \<open>i\<close> does not come
  after \<open>j\<close> in the factor's ordering, the transpose of the stored block \<open>(j, i)\<close> when it
  does. \<open>factor_gradient F v x r\<close> is component \<open>r\<close> of \<open>\<Sum>_j G_{v,j} \<cdot> x_j - linear_term(v)\<close>
  for the factor \<open>F\<close>, and \<open>spec_gradient\<close> sums it over the factors that touch \<open>v\<close>.
\<close>

definition G_block :: "HessianFactor \<Rightarrow> nat \<Rightarrow> nat \<Rightarrow> Matrix" where
  "G_block F i j = (if j < i then mat_transpose (hinfo F j i) else hinfo F i j)"

definition block_product :: "HessianFactor \<Rightarrow> Key \<Rightarrow> VectorValues \<Rightarrow> nat \<Rightarrow> nat \<Rightarrow> real" where
  "block_product F v x r j =
     (\<Sum>c < length (the (x (hkeys F ! j))).
        G_block F (hfind F v) j ! r ! c * the (x (hkeys F ! j)) ! c)"

definition factor_gradient :: "HessianFactor \<Rightarrow> Key \<Rightarrow> VectorValues \<Rightarrow> nat \<Rightarrow> real" where
  "factor_gradient F v x r =
     (\<Sum>j < length (hkeys F). block_product F v x r j) - hlinear F (hfind F v) ! r"

definition spec_gradient :: "HessianFactor list \<Rightarrow> Key \<Rightarrow> nat list \<Rightarrow> VectorValues \<Rightarrow> nat \<Rightarrow> real" where
  "spec_gradient hfg v xiFactors x r = (\<Sum>k \<leftarrow> xiFactors. factor_gradient (hfg ! k) v x r)"

text \<open>
  The cost subgraph fits the assignment: every factor listed for \<open>v\<close> exists and has the
  key \<open>v\<close>, with a linear term of \<open>d\<close> components; the assignment has every key of such a
  factor, and the block \<open>G_{v,j}\<close> has \<open>d\<close> rows, as long as the vector of key \<open>j\<close>.
\<close>

definition grad_wf :: "HessianFactor list \<Rightarrow> Key \<Rightarrow> nat list \<Rightarrow> VectorValues \<Rightarrow> nat \<Rightarrow> bool" where
  "grad_wf hfg v xiFactors x d \<longleftrightarrow>
     (\<forall>k \<in> set xiFactors. k < length hfg \<and> v \<in> set (hkeys (hfg ! k)) \<and>
        length (hlinear (hfg ! k) (hfind (hfg ! k) v)) = d \<and>
        (\<forall>j < length (hkeys (hfg ! k)). \<exists>xj. x (hkeys (hfg ! k) ! j) = Some xj \<and>
           length (G_block (hfg ! k) (hfind (hfg ! k) v) j) = d \<and>
           (\<forall>row \<in> set (G_block (hfg ! k) (hfind (hfg ! k) v) j). length row = length xj)))"

subsection \<open>A small problem\<close>

text \<open>
  One scalar variable, key \<open>0\<close>. Factor \<open>0\<close> is the cost row \<open>x = 7\<close> with unit scale,
  factor \<open>1\<close> the inequality row \<open>x \<le> 5\<close>, inactive (scale \<open>-1\<close>). The cost subgraph is
  the quadratic factor of the cost row: information \<open>1\<close>, linear term \<open>7\<close>.
\<close>

definition ex_cost :: JacobianFactor where
  "ex_cost = \<lparr>jkeys = [0], jA = [[[1]]], jb = [7], jmodel = Some (Diagonal_Sigmas [1])\<rparr>"

definition ex_ineq :: JacobianFactor where
  "ex_ineq = \<lparr>jkeys = [0], jA = [[[1]]], jb = [5], jmodel = Some (Constrained_MixedSigmas [- 1])\<rparr>"

definition ex_store :: store where
  "ex_store = [Jacobian ex_cost, Jacobian ex_ineq]"

definition ex_graph :: graphRef where
  "ex_graph = [Some 0, Some 1]"

definition ex_hessian :: HessianFactor where
  "ex_hessian = \<lparr>hkeys = [0], hinfo = (\<lambda>i j. [[1]]), hlinear = (\<lambda>i. [7])\<rparr>"

definition ex_solver :: QPSolver where
  "ex_solver = \<lparr>graph0 = ex_graph, fullFactorIndices = [(0, [0, 1])], constraintIndices = [1],
     freeHessians = [ex_hessian], freeHessianFactorIndex = [(0, [0])]\<rparr>"

text \<open>Assignments of the variable: current points and directions.\<close>

definition ex_x3 :: VectorValues where
  "ex_x3 = [0 \<mapsto> [3]]"

definition ex_x7 :: VectorValues where
  "ex_x7 = [0 \<mapsto> [7]]"

definition ex_p1 :: VectorValues where
  "ex_p1 = [0 \<mapsto> [1]]"

definition ex_p2 :: VectorValues where
  "ex_p2 = [0 \<mapsto> [2]]"

definition ex_p4 :: VectorValues where
  "ex_p4 = [0 \<mapsto> [4]]"

text \<open>Multipliers of the inequality factor: a positive one and a negative one.\<close>

definition ex_lambda_pos :: VectorValues where
  "ex_lambda_pos = [1 \<mapsto> [2]]"

definition ex_lambda_neg :: VectorValues where
  "ex_lambda_neg = [1 \<mapsto> [- 3]]"

definition ex_x5 :: VectorValues where
  "ex_x5 = [0 \<mapsto> [5]]"

definition ex_x7near :: VectorValues where
  "ex_x7near = [0 \<mapsto> [7 - 1 / 1000000]]"

text \<open>
  Collaborators for the small problem. The solve answers, for the working graph, \<open>x = 5\<close>
  when the inequality row is active (scale \<open>0\<close>) and \<open>x = 7\<close> otherwise; for a dual graph,
  whose first factor is on the multiplier key \<open>1\<close>, the multiplier is the right-hand side
  of the dual equation when this is the only factor, and \<open>0\<close> when a zero prior follows
  it. The arithmetic is that of one scalar variable.
\<close>

definition ex_optimize :: "GaussianFactorGraph \<Rightarrow> error + VectorValues" where
  "ex_optimize g =
     (case g of
        [Some (Jacobian j), Some (Jacobian c)] \<Rightarrow>
          if jkeys j = [1] then Inr [1 \<mapsto> [0]]
          else if jmodel c = Some (Constrained_MixedSigmas [0]) then Inr [0 \<mapsto> [5]]
          else Inr [0 \<mapsto> [7]]
      | [Some (Jacobian j)] \<Rightarrow> if jkeys j = [1] then Inr [1 \<mapsto> jb j] else Inl (External 0)
      | _ \<Rightarrow> Inl (External 0))"

definition ex_scalar :: "VectorValues \<Rightarrow> real option" where
  "ex_scalar v = (case v 0 of Some [x] \<Rightarrow> Some x | _ \<Rightarrow> None)"

definition ex_binop :: "(real \<Rightarrow> real \<Rightarrow> real) \<Rightarrow> VectorValues \<Rightarrow> VectorValues \<Rightarrow> error + VectorValues" where
  "ex_binop f a b =
     (case (ex_scalar a, ex_scalar b) of
        (Some x, Some y) \<Rightarrow> Inr [0 \<mapsto> [f x y]]
      | _ \<Rightarrow> Inl (External 1))"

definition ex_equals :: "VectorValues \<Rightarrow> VectorValues \<Rightarrow> real \<Rightarrow> bool" where
  "ex_equals a b tol =
     (case (ex_scalar a, ex_scalar b) of (Some x, Some y) \<Rightarrow> \<bar>x - y\<bar> \<le> tol | _ \<Rightarrow> False)"

definition ex_scale :: "real \<Rightarrow> VectorValues \<Rightarrow> VectorValues" where
  "ex_scale c v = (case ex_scalar v of Some x \<Rightarrow> [0 \<mapsto> [c * x]] | None \<Rightarrow> v)"

definition ex_ext :: externals where
  "ex_ext = \<lparr>hessianOf = (\<lambda>jf. ex_hessian), optimize_graph = ex_optimize, vv_equals = ex_equals,
     vv_sub = ex_binop (-), vv_add = ex_binop (+), vv_scale = ex_scale\<rparr>"

text \<open>
  A constrained factor with a free row of scale \<open>2\<close> after an equality row, and one whose
  second row has the positive scale \<open>1e-10\<close>.
\<close>

definition ex_mixed :: JacobianFactor where
  "ex_mixed = \<lparr>jkeys = [0], jA = [[[1], [1]]], jb = [5, 6],
     jmodel = Some (Constrained_MixedSigmas [0, 2])\<rparr>"

definition ex_tiny :: JacobianFactor where
  "ex_tiny = \<lparr>jkeys = [0], jA = [[[1], [1]]], jb = [5, 6],
     jmodel = Some (Constrained_MixedSigmas [0, 1 / 10000000000])\<rparr>"

text \<open>
  A quadratic factor on the scalar variable \<open>0\<close> and the variable \<open>1\<close> of dimension \<open>2\<close>,
  in this order; only the blocks \<open>(0,0)\<close>, \<open>(0,1)\<close> and \<open>(1,1)\<close> are stored. A solver object
  whose cost subgraph has the factor of the small problem first and this factor second.
\<close>

definition ex_hessian2 :: HessianFactor where
  "ex_hessian2 =
     \<lparr>hkeys = [0, 1],
      hinfo = (\<lambda>i j. if i = 0 \<and> j = 0 then [[2]]
                     else if i = 0 \<and> j = 1 then [[3, 4]]
                     else if i = 1 \<and> j = 1 then [[5, 6], [6, 7]] else []),
      hlinear = (\<lambda>i. if i = 0 then [1] else [1, 1])\<rparr>"

definition ex_x12 :: VectorValues where
  "ex_x12 = [0 \<mapsto> [1], 1 \<mapsto> [1, 2]]"

definition ex_solver2 :: QPSolver where
  "ex_solver2 = \<lparr>graph0 = ex_graph, fullFactorIndices = [(0, [0, 1])], constraintIndices = [1],
     freeHessians = [ex_hessian, ex_hessian2], freeHessianFactorIndex = [(0, [0, 1]), (1, [1])]\<rparr>"

text \<open>A solver object whose cost subgraph is the second factor alone.\<close>

definition ex_solver5 :: QPSolver where
  "ex_solver5 = \<lparr>graph0 = ex_graph, fullFactorIndices = [(0, [0, 1])], constraintIndices = [1],
     freeHessians = [ex_hessian2], freeHessianFactorIndex = [(0, [0]), (1, [0])]\<rparr>"

text \<open>
  A constraint factor with the two inactive rows \<open>x \<le> 5\<close> and \<open>2 x \<le> 10\<close>, which are
  reached at the same step, and a solver object for the graph that holds it alone.
\<close>

definition ex_tie :: JacobianFactor where
  "ex_tie = \<lparr>jkeys = [0], jA = [[[1], [2]]], jb = [5, 10],
     jmodel = Some (Constrained_MixedSigmas [- 1, - 1])\<rparr>"

definition ex_tie_solver :: QPSolver where
  "ex_tie_solver = \<lparr>graph0 = [Some 0], fullFactorIndices = [(0, [0])], constraintIndices = [0],
     freeHessians = [], freeHessianFactorIndex = []\<rparr>"

text \<open>
  A problem with two cost factors on different variables: the cost row \<open>x_0 = 7\<close>, the
  cost rows \<open>x_1 = (1, 2)\<close> on a variable of dimension \<open>2\<close>, and the inactive inequality
  row \<open>x_0 + (1, 1) \<cdot> x_1 \<le> 5\<close>. The conversion gives each cost factor its normal
  equations. \<open>ex_solver3\<close> is the solver object the constructor builds for it.
\<close>

definition ex_cost1 :: JacobianFactor where
  "ex_cost1 = \<lparr>jkeys = [1], jA = [[[1, 0], [0, 1]]], jb = [1, 2],
     jmodel = Some (Diagonal_Sigmas [1, 1])\<rparr>"

definition ex_ineq01 :: JacobianFactor where
  "ex_ineq01 = \<lparr>jkeys = [0, 1], jA = [[[1]], [[1, 1]]], jb = [5],
     jmodel = Some (Constrained_MixedSigmas [- 1])\<rparr>"

definition ex_store3 :: store where
  "ex_store3 = [Jacobian ex_cost, Jacobian ex_cost1, Jacobian ex_ineq01]"

definition ex_graph3 :: graphRef where
  "ex_graph3 = [Some 0, Some 1, Some 2]"

definition ex_hessian1 :: HessianFactor where
  "ex_hessian1 = \<lparr>hkeys = [1], hinfo = (\<lambda>i j. [[1, 0], [0, 1]]), hlinear = (\<lambda>i. [1, 2])\<rparr>"

definition ex_ext3 :: externals where
  "ex_ext3 = \<lparr>hessianOf = (\<lambda>jf. if jkeys jf = [0] then ex_hessian else ex_hessian1),
     optimize_graph = ex_optimize, vv_equals = ex_equals,
     vv_sub = ex_binop (-), vv_add = ex_binop (+), vv_scale = ex_scale\<rparr>"

definition ex_solver3 :: QPSolver where
  "ex_solver3 = \<lparr>graph0 = ex_graph3, fullFactorIndices = [(0, [0, 2]), (1, [1, 2])],
     constraintIndices = [2], freeHessians = [ex_hessian, ex_hessian1],
     freeHessianFactorIndex = [(0, [0]), (1, [1])]\<rparr>"

section \<open>Basic facts\<close>

lemma bindE_Inr [simp]: "bindE (Inr x) f = f x"
  by (simp add: bindE_def)

lemma bindE_Inl [simp]: "bindE (Inl e) f = Inl e"
  by (simp add: bindE_def)

text \<open>An index below \<open>2^31\<close> is reported as it is.\<close>

lemma int_of_size_t_small: "n < 2147483648 \<Longrightarrow> int_of_size_t n = int n"
  by (simp add: int_of_size_t_def)

lemma bindE_eq_Inr: "bindE m f = Inr y \<longleftrightarrow> (\<exists>x. m = Inr x \<and> f x = Inr y)"
  by (cases m) simp_all

lemma foldE_append: "foldE f (xs @ ys) st = bindE (foldE f xs st) (foldE f ys)"
proof (induction xs arbitrary: st)
  case Nil
  show ?case by simp
next
  case (Cons x xs)
  show ?case
  proof (cases "f x st")
    case (Inl e)
    then show ?thesis by simp
  next
    case (Inr s)
    with Cons show ?thesis by simp
  qed
qed

lemma foldE_invariant:
  assumes "foldE f xs st = Inr st'" and "P st"
    and "\<And>x s s'. x \<in> set xs \<Longrightarrow> P s \<Longrightarrow> f x s = Inr s' \<Longrightarrow> P s'"
  shows "P st'"
  using assms
proof (induction xs arbitrary: st)
  case Nil
  then show ?case by simp
next
  case (Cons x xs)
  from Cons.prems(1) obtain s where s: "f x st = Inr s" and rest: "foldE f xs s = Inr st'"
    by (auto simp: bindE_eq_Inr)
  have ps: "P s"
    using Cons.prems(2) s Cons.prems(3) [of x st s] by simp
  show ?case
  proof (rule Cons.IH [OF rest ps])
    fix y s1 s2
    assume "y \<in> set xs" "P s1" "f y s1 = Inr s2"
    then show "P s2"
      using Cons.prems(3) [of y s1 s2] by simp
  qed
qed


lemma foldE_decreasing:
  fixes g :: "'s \<Rightarrow> real"
  assumes "foldE f xs st = Inr st'"
    and "\<And>x s s'. x \<in> set xs \<Longrightarrow> f x s = Inr s' \<Longrightarrow> g s' \<le> g s"
  shows "g st' \<le> g st"
  using assms
proof (induction xs arbitrary: st)
  case Nil
  then show ?case by simp
next
  case (Cons x xs)
  from Cons.prems(1) obtain s where s: "f x st = Inr s" and rest: "foldE f xs s = Inr st'"
    by (auto simp: bindE_eq_Inr)
  have "g s \<le> g st"
    using Cons.prems(2) [of x st s] s by simp
  moreover have "g st' \<le> g s"
  proof (rule Cons.IH [OF rest])
    fix y s1 s2
    assume "y \<in> set xs" "f y s1 = Inr s2"
    then show "g s2 \<le> g s1"
      using Cons.prems(2) [of y s1 s2] by simp
  qed
  ultimately show ?case by simp
qed

lemma foldE_each:
  fixes g :: "'s \<Rightarrow> real"
  assumes "foldE f xs st = Inr st'" and "x \<in> set xs"
    and dec: "\<And>y s s'. y \<in> set xs \<Longrightarrow> f y s = Inr s' \<Longrightarrow> g s' \<le> g s"
    and hit: "\<And>s s'. f x s = Inr s' \<Longrightarrow> g s' \<le> c"
  shows "g st' \<le> c"
proof -
  from assms(2) obtain ys zs where xs: "xs = ys @ x # zs"
    by (auto simp: in_set_conv_decomp)
  from assms(1) obtain s1 where s1: "foldE f ys st = Inr s1" and r: "foldE f (x # zs) s1 = Inr st'"
    by (auto simp: xs foldE_append bindE_eq_Inr)
  from r obtain s2 where s2: "f x s1 = Inr s2" and r2: "foldE f zs s2 = Inr st'"
    by (auto simp: bindE_eq_Inr)
  have "g st' \<le> g s2"
  proof (rule foldE_decreasing [OF r2])
    fix y s s'
    assume "y \<in> set zs" "f y s = Inr s'"
    then show "g s' \<le> g s"
      using dec [of y s s'] by (simp add: xs)
  qed
  also have "g s2 \<le> c"
    by (rule hit [OF s2])
  finally show ?thesis .
qed

lemma foldE_total:
  assumes "\<And>x s. x \<in> set xs \<Longrightarrow> \<exists>s'. f x s = Inr s'"
  shows "\<exists>s'. foldE f xs st = Inr s'"
  using assms
proof (induction xs arbitrary: st)
  case Nil
  show ?case by simp
next
  case (Cons x xs)
  from Cons.prems [of x st] obtain s where s: "f x st = Inr s"
    by auto
  have "\<exists>s'. foldE f xs s = Inr s'"
  proof (rule Cons.IH)
    fix y t
    assume "y \<in> set xs"
    then show "\<exists>s'. f y t = Inr s'"
      using Cons.prems [of y t] by simp
  qed
  then show ?case
    by (simp add: s)
qed

lemma foldE_sorted:
  assumes "foldE f xs st = Inr st'" and "sorted_wrt (<) xs" and "P {} st"
    and step: "\<And>x D s s'. x \<in> set xs \<Longrightarrow> D \<subseteq> set xs \<Longrightarrow> (\<forall>y \<in> D. y < x) \<Longrightarrow> P D s \<Longrightarrow>
       f x s = Inr s' \<Longrightarrow> P (insert x D) s'"
  shows "P (set xs) st'"
proof -
  have gen: "foldE f zs s = Inr st' \<Longrightarrow> xs = ys @ zs \<Longrightarrow> P (set ys) s \<Longrightarrow> P (set xs) st'"
    for ys zs s
  proof (induction zs arbitrary: ys s)
    case Nil
    then show ?case by simp
  next
    case (Cons z zs)
    from Cons.prems(1) obtain s1 where s1: "f z s = Inr s1" and rest: "foldE f zs s1 = Inr st'"
      by (auto simp: bindE_eq_Inr)
    have xs: "xs = (ys @ [z]) @ zs"
      using Cons.prems(2) by simp
    have before: "\<forall>y \<in> set ys. y < z"
      using assms(2) Cons.prems(2) by (simp add: sorted_wrt_append)
    have "P (insert z (set ys)) s1"
      by (rule step [OF _ _ before Cons.prems(3) s1]) (auto simp: Cons.prems(2))
    then have "P (set (ys @ [z])) s1"
      by simp
    from Cons.IH [OF rest xs this] show ?case .
  qed
  from gen [of xs st "[]"] assms(1,3) show ?thesis
    by simp
qed

lemma foldE_member:
  assumes "foldE f xs st = Inr st'" and "x \<in> set xs"
    and mono: "\<And>y s s'. f y s = Inr s' \<Longrightarrow> set s \<subseteq> set s'"
    and hit: "\<And>s s'. f x s = Inr s' \<Longrightarrow> \<exists>a \<in> set s'. P a"
  shows "\<exists>a \<in> set st'. P a"
  using assms(1,2)
proof (induction xs arbitrary: st)
  case Nil
  then show ?case
    by simp
next
  case (Cons y ys)
  from Cons.prems(1) obtain s1 where s1: "f y st = Inr s1" and rest: "foldE f ys s1 = Inr st'"
    by (auto simp add: bindE_eq_Inr)
  show ?case
  proof (cases "x \<in> set ys")
    case True
    from Cons.IH [OF rest True] show ?thesis .
  next
    case False
    with Cons.prems(2) have xy: "x = y"
      by simp
    from hit s1 xy obtain a where a: "a \<in> set s1" and pa: "P a"
      by blast
    have "set s1 \<subseteq> set st'"
      by (rule foldE_invariant [OF rest, where P = "\<lambda>s. set s1 \<subseteq> set s"]) (use mono in blast)+
    with a pa show ?thesis
      by blast
  qed
qed

lemma foldE_fails:
  assumes "x \<in> set xs" and "\<And>s. \<exists>e. f x s = Inl e"
  shows "\<exists>e. foldE f xs st = Inl e"
  using assms(1)
proof (induction xs arbitrary: st)
  case Nil
  then show ?case
    by simp
next
  case (Cons y ys)
  show ?case
  proof (cases "f y st")
    case (Inl e)
    then show ?thesis
      by simp
  next
    case (Inr s1)
    have "x \<noteq> y"
    proof
      assume "x = y"
      with assms(2) [of st] Inr show False
        by simp
    qed
    with Cons.prems have "x \<in> set ys"
      by simp
    from Cons.IH [OF this, of s1] Inr show ?thesis
      by simp
  qed
qed

lemma toJacobian_Some: "toJacobian q = Some jf \<longleftrightarrow> q = Some (Jacobian jf)"
  by (cases q rule: toJacobian.cases) auto

lemma deref_eq_Inr: "deref q = Inr x \<longleftrightarrow> q = Some x"
  by (cases q) (simp_all add: deref_def)

section \<open>Facts about the ratio test\<close>

lemma stepRow_le:
  assumes "stepRow jf sgs b xk p f s st = Inr st'"
  shows "fst st' \<le> fst st"
  using assms
  by (cases st) (auto simp: stepRow_def bindE_eq_Inr Let_def split: if_splits)

lemma stepRow_bound:
  assumes "stepRow jf sgs b xk p f s st = Inr st'"
    and "sgs ! s < 0" "rowDot jf s p = Inr ap" "0 < ap" "rowDot jf s xk = Inr ax"
    and "coeff b s = Inr bs"
  shows "fst st' \<le> (bs - ax) / ap"
  using assms
  by (cases st) (auto simp: stepRow_def bindE_eq_Inr Let_def split: if_splits)

lemma stepRow_cases:
  assumes "stepRow jf sgs b xk p f s st = Inr st'"
  shows "st' = st \<or>
     (\<exists>ap ax bs. sgs ! s < 0 \<and> rowDot jf s p = Inr ap \<and> 0 < ap \<and> rowDot jf s xk = Inr ax \<and>
        coeff b s = Inr bs \<and> (bs - ax) / ap < fst st \<and>
        st' = ((bs - ax) / ap, int_of_size_t f, int_of_size_t s))"
  using assms
  by (cases st) (auto simp: stepRow_def bindE_eq_Inr Let_def split: if_splits)

lemma stepFactor_unfold:
  assumes "stepFactor wg xk p f st = Inr st'"
  obtains jf m where "graph_at wg f = Inr (Some (Jacobian jf))" "jmodel jf = Some m"
    "foldE (stepRow jf (sigmas m) (jb jf) xk p f) [0..<length (sigmas m)] st = Inr st'"
  using assms
  by (auto simp: stepFactor_def bindE_eq_Inr deref_eq_Inr toJacobian_Some)

lemma stepFactor_le:
  assumes "stepFactor wg xk p f st = Inr st'"
  shows "fst st' \<le> fst st"
proof -
  from assms obtain jf m where
    fold: "foldE (stepRow jf (sigmas m) (jb jf) xk p f) [0..<length (sigmas m)] st = Inr st'"
    by (rule stepFactor_unfold)
  show ?thesis
    by (rule foldE_decreasing [OF fold]) (rule stepRow_le)
qed

lemma stepFactor_bound:
  assumes step: "stepFactor wg xk p f st = Inr st'"
    and row: "inactiveRow wg xk p f s ap ax bs" and pos: "0 < ap"
  shows "fst st' \<le> (bs - ax) / ap"
proof -
  from step obtain jf m where g: "graph_at wg f = Inr (Some (Jacobian jf))" and m: "jmodel jf = Some m"
    and fold: "foldE (stepRow jf (sigmas m) (jb jf) xk p f) [0..<length (sigmas m)] st = Inr st'"
    by (rule stepFactor_unfold)
  from row g m have s: "s < length (sigmas m)" and neg: "sigmas m ! s < 0"
    and ap: "rowDot jf s p = Inr ap" and ax: "rowDot jf s xk = Inr ax"
    and bs: "coeff (jb jf) s = Inr bs"
    by (auto simp: inactiveRow_def)
  show ?thesis
  proof (rule foldE_each [OF fold])
    show "s \<in> set [0..<length (sigmas m)]"
      using s by simp
  next
    fix y t t'
    assume "stepRow jf (sigmas m) (jb jf) xk p f y t = Inr t'"
    then show "fst t' \<le> fst t"
      by (rule stepRow_le)
  next
    fix t t'
    assume "stepRow jf (sigmas m) (jb jf) xk p f s t = Inr t'"
    then show "fst t' \<le> (bs - ax) / ap"
      by (rule stepRow_bound [OF _ neg ap pos ax bs])
  qed
qed

lemma stepFactor_attained:
  assumes step: "stepFactor wg xk p f st = Inr st'" and f: "f \<in> set idxs"
    and inv: "attained idxs wg xk p st"
  shows "attained idxs wg xk p st'"
proof -
  from step obtain jf m where g: "graph_at wg f = Inr (Some (Jacobian jf))" and m: "jmodel jf = Some m"
    and fold: "foldE (stepRow jf (sigmas m) (jb jf) xk p f) [0..<length (sigmas m)] st = Inr st'"
    by (rule stepFactor_unfold)
  show ?thesis
  proof (rule foldE_invariant [where P = "attained idxs wg xk p", OF fold inv])
    fix s t t'
    assume s: "s \<in> set [0..<length (sigmas m)]" and t: "attained idxs wg xk p t"
      and row: "stepRow jf (sigmas m) (jb jf) xk p f s t = Inr t'"
    from stepRow_cases [OF row] show "attained idxs wg xk p t'"
    proof
      assume "t' = t"
      with t show ?thesis by simp
    next
      assume "\<exists>ap ax bs. sigmas m ! s < 0 \<and> rowDot jf s p = Inr ap \<and> 0 < ap \<and>
        rowDot jf s xk = Inr ax \<and> coeff (jb jf) s = Inr bs \<and> (bs - ax) / ap < fst t \<and>
        t' = ((bs - ax) / ap, int_of_size_t f, int_of_size_t s)"
      then obtain ap ax bs where neg: "sigmas m ! s < 0" and ap: "rowDot jf s p = Inr ap"
        and pos: "0 < ap" and ax: "rowDot jf s xk = Inr ax" and bs: "coeff (jb jf) s = Inr bs"
        and lt: "(bs - ax) / ap < fst t"
        and t': "t' = ((bs - ax) / ap, int_of_size_t f, int_of_size_t s)"
        by blast
      have row: "inactiveRow wg xk p f s ap ax bs"
        using g m s neg ap ax bs by (auto simp: inactiveRow_def)
      have "fst t \<le> 1"
        using t by (auto simp: attained_def)
      with lt have "fst t' < 1"
        by (simp add: t')
      then show ?thesis
        unfolding attained_def using f row pos t' by blast
    qed
  qed
qed

lemma rowDotStep_total:
  assumes "rowsReadable jf m v" "s < length (sigmas m)" "xj < length (jkeys jf)"
  shows "\<exists>acc'. rowDotStep jf s v xj acc = Inr acc'"
proof -
  from assms have len: "length (jA jf) = length (jkeys jf)"
    and rows: "length (jA jf ! xj) = length (sigmas m)"
    by (auto simp: rowsReadable_def)
  from assms obtain x where x: "v (jkeys jf ! xj) = Some x"
    and r: "\<forall>r \<in> set (jA jf ! xj). length r = length x"
    by (auto simp: rowsReadable_def)
  have "jA jf ! xj ! s \<in> set (jA jf ! xj)"
    using rows assms(2) by simp
  with r have "length (jA jf ! xj ! s) = length x"
    by blast
  then show ?thesis
    using assms(2,3) len rows x
    by (simp add: rowDotStep_def vv_at_def getA_def row_def dot_def)
qed

lemma rowDot_total:
  assumes "rowsReadable jf m v" "s < length (sigmas m)"
  shows "\<exists>d. rowDot jf s v = Inr d"
  unfolding rowDot_def
proof (rule foldE_total)
  fix xj acc
  assume "xj \<in> set [0..<length (jkeys jf)]"
  then have "xj < length (jkeys jf)"
    by simp
  then show "\<exists>s'. rowDotStep jf s v xj acc = Inr s'"
    by (rule rowDotStep_total [OF assms])
qed

lemma stepRow_total:
  assumes "rowsReadable jf m xk" "rowsReadable jf m p" "s < length (sigmas m)"
    "length b = length (sigmas m)"
  shows "\<exists>st'. stepRow jf (sigmas m) b xk p f s st = Inr st'"
proof -
  obtain ap where ap: "rowDot jf s p = Inr ap"
    using rowDot_total [OF assms(2,3)] by blast
  obtain ax where ax: "rowDot jf s xk = Inr ax"
    using rowDot_total [OF assms(1,3)] by blast
  show ?thesis
    using assms(3,4) by (cases st) (simp add: stepRow_def ap ax coeff_def Let_def)
qed

lemma stepFactor_total:
  assumes "graph_at wg f = Inr (Some (Jacobian jf))" "jmodel jf = Some m"
    "length (jb jf) = length (sigmas m)" "rowsReadable jf m xk" "rowsReadable jf m p"
  shows "\<exists>st'. stepFactor wg xk p f st = Inr st'"
proof -
  have "\<exists>st'. foldE (stepRow jf (sigmas m) (jb jf) xk p f) [0..<length (sigmas m)] st = Inr st'"
  proof (rule foldE_total)
    fix s t
    assume "s \<in> set [0..<length (sigmas m)]"
    then have "s < length (sigmas m)"
      by simp
    then show "\<exists>s'. stepRow jf (sigmas m) (jb jf) xk p f s t = Inr s'"
      by (rule stepRow_total [OF assms(4,5) _ assms(3)])
  qed
  then show ?thesis
    by (simp add: stepFactor_def assms(1,2) deref_def)
qed

lemma computeStepSize_total:
  assumes "stepsize_wf solver wg xk p"
  shows "\<exists>r. computeStepSize solver wg xk p = Inr r"
  unfolding computeStepSize_def
proof (rule foldE_total)
  fix f st
  assume "f \<in> set (constraintIndices solver)"
  with assms obtain jf m where "graph_at wg f = Inr (Some (Jacobian jf))" "jmodel jf = Some m"
    "length (jb jf) = length (sigmas m)" "rowsReadable jf m xk" "rowsReadable jf m p"
    unfolding stepsize_wf_def by blast
  then show "\<exists>s'. stepFactor wg xk p f st = Inr s'"
    by (rule stepFactor_total)
qed

lemma computeStepSize_le:
  assumes "computeStepSize solver wg xk p = Inr st"
  shows "fst st \<le> 1"
proof -
  have "fst st \<le> fst ((1, - 1, - 1) :: real \<times> int \<times> int)"
    by (rule foldE_decreasing [OF assms [unfolded computeStepSize_def]]) (rule stepFactor_le)
  then show ?thesis by simp
qed

lemma computeStepSize_bound:
  assumes run: "computeStepSize solver wg xk p = Inr st"
    and f: "f \<in> set (constraintIndices solver)"
    and row: "inactiveRow wg xk p f s ap ax bs" and pos: "0 < ap"
  shows "fst st \<le> (bs - ax) / ap"
proof (rule foldE_each [OF run [unfolded computeStepSize_def] f])
  fix y t t'
  assume "stepFactor wg xk p y t = Inr t'"
  then show "fst t' \<le> fst t"
    by (rule stepFactor_le)
next
  fix t t'
  assume "stepFactor wg xk p f t = Inr t'"
  then show "fst t' \<le> (bs - ax) / ap"
    using row pos by (rule stepFactor_bound)
qed

lemma computeStepSize_attained:
  assumes run: "computeStepSize solver wg xk p = Inr st"
  shows "attained (constraintIndices solver) wg xk p st"
proof (rule foldE_invariant [where P = "attained (constraintIndices solver) wg xk p",
      OF run [unfolded computeStepSize_def]])
  show "attained (constraintIndices solver) wg xk p (1, - 1, - 1)"
    by (simp add: attained_def)
next
  fix f t t'
  assume "f \<in> set (constraintIndices solver)" "attained (constraintIndices solver) wg xk p t"
    "stepFactor wg xk p f t = Inr t'"
  then show "attained (constraintIndices solver) wg xk p t'"
    by (simp add: stepFactor_attained)
qed

lemma inactiveRow_unique:
  assumes "inactiveRow wg xk p f s ap ax bs" "inactiveRow wg xk p f s ap' ax' bs'"
  shows "ap' = ap \<and> ax' = ax \<and> bs' = bs"
  using assms by (auto simp: inactiveRow_def)

lemma update_sentinel:
  "factorIx < 0 \<or> sigmaIx < 0 \<Longrightarrow>
     updateWorkingSetInplace h wg factorIx sigmaIx newSigma = Inr (False, h)"
  by (simp add: updateWorkingSetInplace_def)

lemma stepCandidate_unique:
  assumes "stepCandidate wg xk p f s c" "stepCandidate wg xk p f s c'"
  shows "c' = c"
proof -
  from assms obtain ap ax bs ap' ax' bs' where r: "inactiveRow wg xk p f s ap ax bs"
    and c: "c = (bs - ax) / ap" and r': "inactiveRow wg xk p f s ap' ax' bs'"
    and c': "c' = (bs' - ax') / ap'"
    unfolding stepCandidate_def by blast
  from inactiveRow_unique [OF r r'] c c' show ?thesis
    by simp
qed

lemma stepInv_init: "stepInv wg xk p {} (1, - 1, - 1)"
  by (simp add: stepInv_def)

lemma stepInv_le_one:
  assumes "stepInv wg xk p D st"
  shows "fst st \<le> 1"
  using assms by (auto simp: stepInv_def)

lemma stepInv_extend:
  assumes inv: "stepInv wg xk p D st" and sub: "D \<subseteq> D'"
    and no: "\<And>f s c. (f, s) \<in> D' \<Longrightarrow> (f, s) \<notin> D \<Longrightarrow> \<not> stepCandidate wg xk p f s c"
  shows "stepInv wg xk p D' st"
proof -
  have same: "(f, s) \<in> D' \<and> stepCandidate wg xk p f s c \<longleftrightarrow>
      (f, s) \<in> D \<and> stepCandidate wg xk p f s c" for f s c
    using sub no by blast
  have same2: "(f, s) \<in> D' \<and> stepCandidate wg xk p f s c \<and> Q \<longleftrightarrow>
      (f, s) \<in> D \<and> stepCandidate wg xk p f s c \<and> Q" for f s c Q
    using sub no by blast
  show ?thesis
    using inv unfolding stepInv_def same same2 .
qed

text \<open>One row of a factor: the new row comes after every row scanned so far.\<close>

lemma stepRow_inv:
  assumes run: "stepRow jf sgs b xk p f s st = Inr st'"
    and inv: "stepInv wg xk p D st"
    and after: "\<forall>f' s'. (f', s') \<in> D \<longrightarrow> f' < f \<or> f' = f \<and> s' < s"
    and fac: "graph_at wg f = Inr (Some (Jacobian jf))" "jmodel jf = Some m" "sgs = sigmas m"
      "b = jb jf" "s < length sgs"
  shows "stepInv wg xk p (insert (f, s) D) st'"
proof -
  obtain al fi si where st: "st = (al, fi, si)"
    by (cases st) auto
  from inv have bound: "\<forall>f s c. (f, s) \<in> D \<and> stepCandidate wg xk p f s c \<longrightarrow> al \<le> c"
    by (simp add: stepInv_def st)
  have le: "fst st' \<le> al"
    using stepRow_le [OF run] by (simp add: st)
  have here: "fst st' \<le> c" if c: "stepCandidate wg xk p f s c" for c
  proof -
    from c obtain ap ax bs where r: "inactiveRow wg xk p f s ap ax bs" and pos: "0 < ap"
      and cv: "c = (bs - ax) / ap"
      unfolding stepCandidate_def by blast
    from r fac have "sgs ! s < 0" "rowDot jf s p = Inr ap" "rowDot jf s xk = Inr ax"
      "coeff b s = Inr bs"
      by (auto simp: inactiveRow_def)
    from stepRow_bound [OF run this(1,2) pos this(3,4)] show ?thesis
      by (simp add: cv)
  qed
  have b': "\<forall>f' s' c. (f', s') \<in> insert (f, s) D \<and> stepCandidate wg xk p f' s' c \<longrightarrow> fst st' \<le> c"
  proof (intro allI impI)
    fix f' s' c
    assume a: "(f', s') \<in> insert (f, s) D \<and> stepCandidate wg xk p f' s' c"
    show "fst st' \<le> c"
    proof (cases "(f', s') = (f, s)")
      case True
      with a show ?thesis
        using here by simp
    next
      case False
      with a bound have "al \<le> c"
        by auto
      with le show ?thesis by simp
    qed
  qed
  from stepRow_cases [OF run] show ?thesis
  proof
    assume same: "st' = st"
    from inv consider (init) "st = (1, - 1, - 1)"
      | (found) f0 s0 where "al < 1" "(f0, s0) \<in> D" "stepCandidate wg xk p f0 s0 al"
          "fi = int_of_size_t f0" "si = int_of_size_t s0"
          "\<forall>f' s' c'. (f', s') \<in> D \<and> stepCandidate wg xk p f' s' c' \<and>
               (f' < f0 \<or> f' = f0 \<and> s' < s0) \<longrightarrow> al < c'"
      unfolding stepInv_def st by auto
    then show ?thesis
    proof cases
      case init
      with b' show ?thesis
        unfolding stepInv_def same by auto
    next
      case found
      from after found(2) have order: "f0 < f \<or> f0 = f \<and> s0 < s"
        by blast
      have first: "\<forall>f' s' c'. (f', s') \<in> insert (f, s) D \<and> stepCandidate wg xk p f' s' c' \<and>
               (f' < f0 \<or> f' = f0 \<and> s' < s0) \<longrightarrow> al < c'"
      proof (intro allI impI)
        fix f' s' c'
        assume a: "(f', s') \<in> insert (f, s) D \<and> stepCandidate wg xk p f' s' c' \<and>
               (f' < f0 \<or> f' = f0 \<and> s' < s0)"
        with order have "(f', s') \<noteq> (f, s)"
          by auto
        with a found(6) show "al < c'"
          by auto
      qed
      have "(f0, s0) \<in> insert (f, s) D"
        using found(2) by simp
      with found(1,3,4,5) first b' show ?thesis
        unfolding stepInv_def same st by auto
    qed
  next
    assume "\<exists>ap ax bs. sgs ! s < 0 \<and> rowDot jf s p = Inr ap \<and> 0 < ap \<and>
        rowDot jf s xk = Inr ax \<and> coeff b s = Inr bs \<and> (bs - ax) / ap < fst st \<and>
        st' = ((bs - ax) / ap, int_of_size_t f, int_of_size_t s)"
    then obtain ap ax bs where neg: "sgs ! s < 0" and ap: "rowDot jf s p = Inr ap"
      and pos: "0 < ap" and ax: "rowDot jf s xk = Inr ax" and bs: "coeff b s = Inr bs"
      and lt: "(bs - ax) / ap < al"
      and st': "st' = ((bs - ax) / ap, int_of_size_t f, int_of_size_t s)"
      unfolding st by auto
    have row: "inactiveRow wg xk p f s ap ax bs"
      using fac neg ap ax bs by (auto simp: inactiveRow_def)
    then have cand: "stepCandidate wg xk p f s ((bs - ax) / ap)"
      using pos unfolding stepCandidate_def by blast
    have "al \<le> 1"
      using stepInv_le_one [OF inv] by (simp add: st)
    with lt have small: "(bs - ax) / ap < 1"
      by simp
    have first: "\<forall>f' s' c'. (f', s') \<in> insert (f, s) D \<and> stepCandidate wg xk p f' s' c' \<and>
             (f' < f \<or> f' = f \<and> s' < s) \<longrightarrow> (bs - ax) / ap < c'"
    proof (intro allI impI)
      fix f' s' c'
      assume a: "(f', s') \<in> insert (f, s) D \<and> stepCandidate wg xk p f' s' c' \<and>
             (f' < f \<or> f' = f \<and> s' < s)"
      then have "(f', s') \<noteq> (f, s)"
        by auto
      with a bound have "al \<le> c'"
        by auto
      with lt show "(bs - ax) / ap < c'"
        by simp
    qed
    have b'': "\<forall>f' s' c. (f', s') \<in> insert (f, s) D \<and> stepCandidate wg xk p f' s' c \<longrightarrow>
        (bs - ax) / ap \<le> c"
      using b' by (simp add: st')
    show ?thesis
      unfolding stepInv_def st' using b'' first small cand by auto
  qed
qed

lemma stepFactor_inv:
  assumes run: "stepFactor wg xk p f st = Inr st'"
    and inv: "stepInv wg xk p D st"
    and after: "\<forall>f' s'. (f', s') \<in> D \<longrightarrow> f' < f"
  shows "stepInv wg xk p (D \<union> {f} \<times> UNIV) st'"
proof -
  from run obtain jf m where g: "graph_at wg f = Inr (Some (Jacobian jf))" and m: "jmodel jf = Some m"
    and fold: "foldE (stepRow jf (sigmas m) (jb jf) xk p f) [0..<length (sigmas m)] st = Inr st'"
    by (rule stepFactor_unfold)
  have "stepInv wg xk p (D \<union> {f} \<times> set [0..<length (sigmas m)]) st'"
  proof (rule foldE_sorted [where P = "\<lambda>J. stepInv wg xk p (D \<union> {f} \<times> J)", OF fold])
    show "sorted_wrt (<) [0..<length (sigmas m)]"
      by simp
    show "stepInv wg xk p (D \<union> {f} \<times> {}) st"
      using inv by simp
  next
    fix s J t t'
    assume s: "s \<in> set [0..<length (sigmas m)]" and J: "\<forall>y \<in> J. y < s"
      and invJ: "stepInv wg xk p (D \<union> {f} \<times> J) t"
      and row: "stepRow jf (sigmas m) (jb jf) xk p f s t = Inr t'"
    have aft: "\<forall>f' s'. (f', s') \<in> D \<union> {f} \<times> J \<longrightarrow> f' < f \<or> f' = f \<and> s' < s"
      using after J by blast
    have sl: "s < length (sigmas m)"
      using s by simp
    have eq: "insert (f, s) (D \<union> {f} \<times> J) = D \<union> {f} \<times> insert s J"
      by blast
    have "stepInv wg xk p (insert (f, s) (D \<union> {f} \<times> J)) t'"
      by (rule stepRow_inv [OF row invJ aft g m refl refl sl])
    then show "stepInv wg xk p (D \<union> {f} \<times> insert s J) t'"
      unfolding eq .
  qed
  then show ?thesis
  proof (rule stepInv_extend)
    show "D \<union> {f} \<times> set [0..<length (sigmas m)] \<subseteq> D \<union> {f} \<times> UNIV"
      by blast
  next
    fix f' s c
    assume "(f', s) \<in> D \<union> {f} \<times> UNIV" "(f', s) \<notin> D \<union> {f} \<times> set [0..<length (sigmas m)]"
    then have "f' = f" "\<not> s < length (sigmas m)"
      by auto
    then show "\<not> stepCandidate wg xk p f' s c"
      using g m by (auto simp: stepCandidate_def inactiveRow_def)
  qed
qed

lemma computeStepSize_inv:
  assumes run: "computeStepSize solver wg xk p = Inr st"
    and sorted: "sorted_wrt (<) (constraintIndices solver)"
  shows "stepInv wg xk p (set (constraintIndices solver) \<times> UNIV) st"
proof (rule foldE_sorted [where P = "\<lambda>F. stepInv wg xk p (F \<times> UNIV)",
      OF run [unfolded computeStepSize_def] sorted])
  show "stepInv wg xk p ({} \<times> UNIV) (1, - 1, - 1)"
    by (simp add: stepInv_init)
next
  fix f F t t'
  assume F: "\<forall>y \<in> F. y < f" and inv: "stepInv wg xk p (F \<times> UNIV) t"
    and step: "stepFactor wg xk p f t = Inr t'"
  have aft: "\<forall>f' s'. (f', s') \<in> F \<times> (UNIV :: nat set) \<longrightarrow> f' < f"
    using F by blast
  have eq: "F \<times> UNIV \<union> {f} \<times> UNIV = insert f F \<times> (UNIV :: nat set)"
    by blast
  have "stepInv wg xk p (F \<times> UNIV \<union> {f} \<times> UNIV) t'"
    by (rule stepFactor_inv [OF step inv aft])
  then show "stepInv wg xk p (insert f F \<times> UNIV) t'"
    unfolding eq .
qed

text \<open>The row the ratio test reports is the first one that attains the minimum.\<close>

lemma computeStepSize_first:
  assumes run: "computeStepSize solver wg xk p = Inr (alpha, fi, si)"
    and sorted: "sorted_wrt (<) (constraintIndices solver)"
  shows "(alpha = 1 \<and> fi = - 1 \<and> si = - 1) \<or>
     (alpha < 1 \<and>
      (\<exists>f \<in> set (constraintIndices solver). \<exists>s. stepCandidate wg xk p f s alpha \<and>
         fi = int_of_size_t f \<and> si = int_of_size_t s \<and>
         (\<forall>f' \<in> set (constraintIndices solver). \<forall>s' c'. stepCandidate wg xk p f' s' c' \<longrightarrow>
            alpha \<le> c' \<and> ((f' < f \<or> f' = f \<and> s' < s) \<longrightarrow> alpha < c'))))"
proof -
  let ?D = "set (constraintIndices solver) \<times> (UNIV :: nat set)"
  from computeStepSize_inv [OF run sorted] have inv: "stepInv wg xk p ?D (alpha, fi, si)" .
  then have bound: "\<And>f s c. (f, s) \<in> ?D \<Longrightarrow> stepCandidate wg xk p f s c \<Longrightarrow> alpha \<le> c"
    unfolding stepInv_def by auto
  from inv consider (init) "(alpha, fi, si) = (1, - 1, - 1)"
    | (found) f s where "alpha < 1" "(f, s) \<in> ?D" "stepCandidate wg xk p f s alpha"
        "fi = int_of_size_t f" "si = int_of_size_t s"
        "\<forall>f' s' c'. (f', s') \<in> ?D \<and> stepCandidate wg xk p f' s' c' \<and>
             (f' < f \<or> f' = f \<and> s' < s) \<longrightarrow> alpha < c'"
    unfolding stepInv_def by auto
  then show ?thesis
  proof cases
    case init
    then show ?thesis by simp
  next
    case found
    have all: "\<forall>f' \<in> set (constraintIndices solver). \<forall>s' c'. stepCandidate wg xk p f' s' c' \<longrightarrow>
            alpha \<le> c' \<and> ((f' < f \<or> f' = f \<and> s' < s) \<longrightarrow> alpha < c')"
    proof (intro ballI allI impI conjI)
      fix f' s' c'
      assume f': "f' \<in> set (constraintIndices solver)" and c: "stepCandidate wg xk p f' s' c'"
      show "alpha \<le> c'"
        using bound [of f' s' c'] f' c by simp
      assume "f' < f \<or> f' = f \<and> s' < s"
      with found(6) f' c show "alpha < c'"
        by simp
    qed
    from found(2) have "f \<in> set (constraintIndices solver)"
      by simp
    with found(1,3,4,5) all show ?thesis
      by blast
  qed
qed

section \<open>Facts about the worst-violation selection\<close>

lemma ineqRow_unique:
  assumes "ineqRow g lambdas f j l" "ineqRow g lambdas f j l'"
  shows "l' = l"
  using assms by (auto simp: ineqRow_def)

lemma worstInv_init: "worstInv g lambdas {} (- 1, - 1, 0)"
  by (simp add: worstInv_def)

lemma worstInv_maxLambda_nonneg:
  assumes "worstInv g lambdas D st"
  shows "0 \<le> snd (snd st)"
  using assms by (auto simp: worstInv_def)

text \<open>A row without an inequality multiplier does not disturb the invariant.\<close>

lemma worstInv_skip:
  assumes inv: "worstInv g lambdas D st" and no: "\<And>l. \<not> ineqRow g lambdas f j l"
  shows "worstInv g lambdas (insert (f, j) D) st"
proof -
  from inv have bound: "\<forall>f j l. (f, j) \<in> D \<and> ineqRow g lambdas f j l \<longrightarrow> l \<le> snd (snd st)"
    by (simp add: worstInv_def)
  have b': "\<forall>f' j' l. (f', j') \<in> insert (f, j) D \<and> ineqRow g lambdas f' j' l \<longrightarrow> l \<le> snd (snd st)"
    using bound no by auto
  from inv consider (init) "st = (- 1, - 1, 0)"
    | (found) f0 j0 where "0 < snd (snd st)" "(f0, j0) \<in> D" "ineqRow g lambdas f0 j0 (snd (snd st))"
        "fst st = int_of_size_t f0" "fst (snd st) = int_of_size_t j0"
        "\<forall>f' j' l'. (f', j') \<in> D \<and> ineqRow g lambdas f' j' l' \<and>
             (f' < f0 \<or> f' = f0 \<and> j' < j0) \<longrightarrow> l' < snd (snd st)"
    unfolding worstInv_def by blast
  then show ?thesis
  proof cases
    case init
    with b' show ?thesis
      unfolding worstInv_def by blast
  next
    case found
    have first: "\<forall>f' j' l'. (f', j') \<in> insert (f, j) D \<and> ineqRow g lambdas f' j' l' \<and>
             (f' < f0 \<or> f' = f0 \<and> j' < j0) \<longrightarrow> l' < snd (snd st)"
      using found(6) no by auto
    have "(f0, j0) \<in> insert (f, j) D"
      using found(2) by simp
    with found(1,3,4,5) first b' show ?thesis
      unfolding worstInv_def by blast
  qed
qed

text \<open>One row of a factor: the new row comes after every row scanned so far.\<close>

lemma worstRow_inv:
  assumes run: "worstRow lam sgs f j st = Inr st'"
    and inv: "worstInv g lambdas D st"
    and after: "\<forall>f' j'. (f', j') \<in> D \<longrightarrow> f' < f \<or> f' = f \<and> j' < j"
    and fac: "graph_at g f = Inr (Some (Jacobian jf))" "jmodel jf = Some m" "sgs = sigmas m"
      "lambdas f = Some lam" "j < length sgs"
  shows "worstInv g lambdas (insert (f, j) D) st'"
proof (cases "sgs ! j < 0")
  case False
  then have same: "st' = st"
    using run by (cases st) (simp add: worstRow_def)
  have "\<not> ineqRow g lambdas f j l" for l
    using False fac by (auto simp: ineqRow_def)
  with inv show ?thesis
    unfolding same by (rule worstInv_skip)
next
  case True
  obtain fi si ml where st: "st = (fi, si, ml)"
    by (cases st) auto
  from run True obtain lj where lj: "coeff lam j = Inr lj"
    and res: "st' = (if lj > ml then (int_of_size_t f, int_of_size_t j, lj) else st)"
    by (auto simp: worstRow_def st bindE_eq_Inr split: if_splits)
  have row: "ineqRow g lambdas f j lj"
    using True fac lj by (auto simp: ineqRow_def)
  from inv have bound: "\<forall>f j l. (f, j) \<in> D \<and> ineqRow g lambdas f j l \<longrightarrow> l \<le> ml"
    by (simp add: worstInv_def st)
  have nonneg: "0 \<le> ml"
    using worstInv_maxLambda_nonneg [OF inv] by (simp add: st)
  show ?thesis
  proof (cases "lj > ml")
    case True
    then have st': "st' = (int_of_size_t f, int_of_size_t j, lj)"
      using res by simp
    have b': "\<forall>f' j' l. (f', j') \<in> insert (f, j) D \<and> ineqRow g lambdas f' j' l \<longrightarrow> l \<le> lj"
    proof (intro allI impI)
      fix f' j' l
      assume a: "(f', j') \<in> insert (f, j) D \<and> ineqRow g lambdas f' j' l"
      show "l \<le> lj"
      proof (cases "(f', j') = (f, j)")
        case True
        with a row show ?thesis
          using ineqRow_unique by fastforce
      next
        case False
        with a bound have "l \<le> ml"
          by auto
        with \<open>lj > ml\<close> show ?thesis by simp
      qed
    qed
    have first: "\<forall>f' j' l'. (f', j') \<in> insert (f, j) D \<and> ineqRow g lambdas f' j' l' \<and>
             (f' < f \<or> f' = f \<and> j' < j) \<longrightarrow> l' < lj"
    proof (intro allI impI)
      fix f' j' l'
      assume a: "(f', j') \<in> insert (f, j) D \<and> ineqRow g lambdas f' j' l' \<and>
             (f' < f \<or> f' = f \<and> j' < j)"
      then have "(f', j') \<noteq> (f, j)"
        by auto
      with a bound have "l' \<le> ml"
        by auto
      with \<open>lj > ml\<close> show "l' < lj" by simp
    qed
    have pos: "0 < lj"
      using nonneg \<open>lj > ml\<close> by simp
    show ?thesis
      unfolding worstInv_def st' using b' first pos row by auto
  next
    case False
    then have same: "st' = st"
      using res by simp
    have b': "\<forall>f' j' l. (f', j') \<in> insert (f, j) D \<and> ineqRow g lambdas f' j' l \<longrightarrow> l \<le> ml"
    proof (intro allI impI)
      fix f' j' l
      assume a: "(f', j') \<in> insert (f, j) D \<and> ineqRow g lambdas f' j' l"
      show "l \<le> ml"
      proof (cases "(f', j') = (f, j)")
        case True
        with a row have "l = lj"
          using ineqRow_unique by fastforce
        with False show ?thesis by simp
      next
        case False
        with a bound show ?thesis
          by auto
      qed
    qed
    from inv consider (init) "st = (- 1, - 1, 0)"
      | (found) f0 j0 where "0 < ml" "(f0, j0) \<in> D" "ineqRow g lambdas f0 j0 ml"
          "fi = int_of_size_t f0" "si = int_of_size_t j0"
          "\<forall>f' j' l'. (f', j') \<in> D \<and> ineqRow g lambdas f' j' l' \<and>
               (f' < f0 \<or> f' = f0 \<and> j' < j0) \<longrightarrow> l' < ml"
      unfolding worstInv_def st by auto
    then show ?thesis
    proof cases
      case init
      with b' show ?thesis
        unfolding worstInv_def same st by auto
    next
      case found
      from after found(2) have order: "f0 < f \<or> f0 = f \<and> j0 < j"
        by blast
      have first: "\<forall>f' j' l'. (f', j') \<in> insert (f, j) D \<and> ineqRow g lambdas f' j' l' \<and>
               (f' < f0 \<or> f' = f0 \<and> j' < j0) \<longrightarrow> l' < ml"
      proof (intro allI impI)
        fix f' j' l'
        assume a: "(f', j') \<in> insert (f, j) D \<and> ineqRow g lambdas f' j' l' \<and>
               (f' < f0 \<or> f' = f0 \<and> j' < j0)"
        with order have "(f', j') \<noteq> (f, j)"
          by auto
        with a found(6) show "l' < ml"
          by auto
      qed
      have "(f0, j0) \<in> insert (f, j) D"
        using found(2) by simp
      with found(1,3,4,5) first b' show ?thesis
        unfolding worstInv_def same st by auto
    qed
  qed
qed

lemma worstInv_extend:
  assumes inv: "worstInv g lambdas D st" and sub: "D \<subseteq> D'"
    and no: "\<And>f j l. (f, j) \<in> D' \<Longrightarrow> (f, j) \<notin> D \<Longrightarrow> \<not> ineqRow g lambdas f j l"
  shows "worstInv g lambdas D' st"
proof -
  have same: "(f, j) \<in> D' \<and> ineqRow g lambdas f j l \<longleftrightarrow> (f, j) \<in> D \<and> ineqRow g lambdas f j l"
    for f j l
    using sub no by blast
  have same2: "(f, j) \<in> D' \<and> ineqRow g lambdas f j l \<and> Q \<longleftrightarrow>
      (f, j) \<in> D \<and> ineqRow g lambdas f j l \<and> Q"
    for f j l Q
    using sub no by blast
  show ?thesis
    using inv unfolding worstInv_def same same2 .
qed

lemma vv_at_eq_Inr: "vv_at v k = Inr x \<longleftrightarrow> v k = Some x"
  by (cases "v k") (simp_all add: vv_at_def)

lemma worstFactor_unfold:
  assumes "worstFactor g lambdas f st = Inr st'"
  obtains lam jf m where "lambdas f = Some lam" "graph_at g f = Inr (Some (Jacobian jf))"
    "jmodel jf = Some m"
    "foldE (worstRow lam (sigmas m) f) [0..<length (sigmas m)] st = Inr st'"
  using assms
  by (auto simp: worstFactor_def bindE_eq_Inr deref_eq_Inr toJacobian_Some vv_at_eq_Inr)

lemma worstFactor_inv:
  assumes run: "worstFactor g lambdas f st = Inr st'"
    and inv: "worstInv g lambdas D st"
    and after: "\<forall>f' j'. (f', j') \<in> D \<longrightarrow> f' < f"
  shows "worstInv g lambdas (D \<union> {f} \<times> UNIV) st'"
proof -
  from run obtain lam jf m where lam: "lambdas f = Some lam"
    and g: "graph_at g f = Inr (Some (Jacobian jf))" and m: "jmodel jf = Some m"
    and fold: "foldE (worstRow lam (sigmas m) f) [0..<length (sigmas m)] st = Inr st'"
    by (rule worstFactor_unfold)
  have "worstInv g lambdas (D \<union> {f} \<times> set [0..<length (sigmas m)]) st'"
  proof (rule foldE_sorted [where P = "\<lambda>J. worstInv g lambdas (D \<union> {f} \<times> J)", OF fold])
    show "sorted_wrt (<) [0..<length (sigmas m)]"
      by simp
    show "worstInv g lambdas (D \<union> {f} \<times> {}) st"
      using inv by simp
  next
    fix j J s s'
    assume j: "j \<in> set [0..<length (sigmas m)]" and J: "\<forall>y \<in> J. y < j"
      and invJ: "worstInv g lambdas (D \<union> {f} \<times> J) s"
      and row: "worstRow lam (sigmas m) f j s = Inr s'"
    have aft: "\<forall>f' j'. (f', j') \<in> D \<union> {f} \<times> J \<longrightarrow> f' < f \<or> f' = f \<and> j' < j"
      using after J by blast
    have jl: "j < length (sigmas m)"
      using j by simp
    have eq: "insert (f, j) (D \<union> {f} \<times> J) = D \<union> {f} \<times> insert j J"
      by blast
    have "worstInv g lambdas (insert (f, j) (D \<union> {f} \<times> J)) s'"
      by (rule worstRow_inv [OF row invJ aft g m refl lam jl])
    then show "worstInv g lambdas (D \<union> {f} \<times> insert j J) s'"
      unfolding eq .
  qed
  then show ?thesis
  proof (rule worstInv_extend)
    show "D \<union> {f} \<times> set [0..<length (sigmas m)] \<subseteq> D \<union> {f} \<times> UNIV"
      by blast
  next
    fix f' j l
    assume "(f', j) \<in> D \<union> {f} \<times> UNIV" "(f', j) \<notin> D \<union> {f} \<times> set [0..<length (sigmas m)]"
    then have "f' = f" "\<not> j < length (sigmas m)"
      by auto
    then show "\<not> ineqRow g lambdas f' j l"
      using g m by (auto simp: ineqRow_def)
  qed
qed

lemma findWorst_inv:
  assumes run: "findWorstViolatedActiveIneq solver h lambdas = Inr (fi, si)"
    and sorted: "sorted_wrt (<) (constraintIndices solver)"
  shows "\<exists>ml. worstInv (view h (graph0 solver)) lambdas (set (constraintIndices solver) \<times> UNIV) (fi, si, ml)"
proof -
  let ?g = "view h (graph0 solver)"
  from run obtain ml where fold:
    "foldE (worstFactor ?g lambdas) (constraintIndices solver) (- 1, - 1, 0) = Inr (fi, si, ml)"
    by (auto simp: findWorstViolatedActiveIneq_def bindE_eq_Inr)
  have "worstInv ?g lambdas (set (constraintIndices solver) \<times> UNIV) (fi, si, ml)"
  proof (rule foldE_sorted [where P = "\<lambda>F. worstInv ?g lambdas (F \<times> UNIV)", OF fold sorted])
    show "worstInv ?g lambdas ({} \<times> UNIV) (- 1, - 1, 0)"
      by (simp add: worstInv_init)
  next
    fix f F s s'
    assume F: "\<forall>y \<in> F. y < f" and inv: "worstInv ?g lambdas (F \<times> UNIV) s"
      and step: "worstFactor ?g lambdas f s = Inr s'"
    have aft: "\<forall>f' j'. (f', j') \<in> F \<times> (UNIV :: nat set) \<longrightarrow> f' < f"
      using F by blast
    have eq: "F \<times> UNIV \<union> {f} \<times> UNIV = insert f F \<times> (UNIV :: nat set)"
      by blast
    have "worstInv ?g lambdas (F \<times> UNIV \<union> {f} \<times> UNIV) s'"
      by (rule worstFactor_inv [OF step inv aft])
    then show "worstInv ?g lambdas (insert f F \<times> UNIV) s'"
      unfolding eq .
  qed
  then show ?thesis ..
qed

lemma worstRow_total:
  assumes "j < length lam"
  shows "\<exists>st'. worstRow lam sgs f j st = Inr st'"
  using assms by (cases st) (simp add: worstRow_def coeff_def)

lemma findWorst_total:
  assumes "worst_wf solver h lambdas"
  shows "\<exists>r. findWorstViolatedActiveIneq solver h lambdas = Inr r"
proof -
  let ?g = "view h (graph0 solver)"
  have "\<exists>st. foldE (worstFactor ?g lambdas) (constraintIndices solver) (- 1, - 1, 0) = Inr st"
  proof (rule foldE_total)
    fix f st
    assume "f \<in> set (constraintIndices solver)"
    with assms obtain jf m lam where g: "graph_at ?g f = Inr (Some (Jacobian jf))"
      and m: "jmodel jf = Some m" and lam: "lambdas f = Some lam" and len: "length (sigmas m) \<le> length lam"
      unfolding worst_wf_def by blast
    have "\<exists>st'. foldE (worstRow lam (sigmas m) f) [0..<length (sigmas m)] st = Inr st'"
    proof (rule foldE_total)
      fix j t
      assume "j \<in> set [0..<length (sigmas m)]"
      with len have "j < length lam"
        by simp
      then show "\<exists>s'. worstRow lam (sigmas m) f j t = Inr s'"
        by (rule worstRow_total)
    qed
    then show "\<exists>s'. worstFactor ?g lambdas f st = Inr s'"
      by (simp add: worstFactor_def g m lam vv_at_def deref_def)
  qed
  then obtain st where "foldE (worstFactor ?g lambdas) (constraintIndices solver) (- 1, - 1, 0) = Inr st"
    by blast
  then show ?thesis
    by (cases st) (simp add: findWorstViolatedActiveIneq_def)
qed

section \<open>Facts about the update and the driver\<close>

lemma update_valid:
  assumes "0 \<le> factorIx" "0 \<le> sigmaIx" "ref_at wg (nat factorIx) = Inr (Some a)"
    "load h a = Some (Jacobian jf)" "jmodel jf = Some m" "nat sigmaIx < length (sigmas m)"
  shows "updateWorkingSetInplace h wg factorIx sigmaIx newSigma =
     Inr (True, h[a := Jacobian (setModel jf ((sigmas m)[nat sigmaIx := newSigma]))])"
  using assms by (simp add: updateWorkingSetInplace_def deref_def)

lemma update_False:
  assumes "updateWorkingSetInplace h wg factorIx sigmaIx newSigma = Inr (False, h')"
  shows "h' = h \<and> (factorIx < 0 \<or> sigmaIx < 0)"
  using assms
  by (auto simp: updateWorkingSetInplace_def bindE_eq_Inr split: if_splits)

lemma update_True:
  assumes "updateWorkingSetInplace h wg factorIx sigmaIx newSigma = Inr (True, h')"
  shows "0 \<le> factorIx \<and> 0 \<le> sigmaIx"
  using assms
  by (auto simp: updateWorkingSetInplace_def split: if_splits)

text \<open>The two branches of one iteration, once the sub-problem has been solved.\<close>

lemma iterate_equal:
  assumes "optimize_graph ext (view h wg) = Inr xstar" "vv_equals ext xstar cur (1 / 100000)"
  shows "iterateInPlace ext solver h wg cur =
     bindE (buildDualGraph solver (view h wg) xstar useLeastSquare_default) (\<lambda>dualGraph.
     bindE (optimize_graph ext dualGraph) (\<lambda>lambdas.
     bindE (findWorstViolatedActiveIneq solver h lambdas) (\<lambda>(factorIx, sigmaIx).
     bindE (updateWorkingSetInplace h wg factorIx sigmaIx (- 1)) (\<lambda>(updated, h').
       if \<not> updated then Inr (True, h', cur) else Inr (False, h', cur)))))"
  using assms by (simp add: iterateInPlace_def)

lemma iterate_progress:
  assumes "optimize_graph ext (view h wg) = Inr xstar" "\<not> vv_equals ext xstar cur (1 / 100000)"
  shows "iterateInPlace ext solver h wg cur =
     bindE (vv_sub ext xstar cur) (\<lambda>p.
     bindE (computeStepSize solver (view h wg) cur p) (\<lambda>(alpha, factorIx, sigmaIx).
     bindE (updateWorkingSetInplace h wg factorIx sigmaIx 0) (\<lambda>(updated, h').
     bindE (vv_add ext cur (vv_scale ext alpha p)) (\<lambda>cur'. Inr (False, h', cur')))))"
  using assms by (simp add: iterateInPlace_def)

lemma iterate_True:
  assumes run: "iterateInPlace ext solver h wg cur = Inr (True, h', cur')"
  shows "h' = h \<and> cur' = cur \<and>
    (\<exists>xstar dg lambdas fi si. optimize_graph ext (view h wg) = Inr xstar \<and>
       vv_equals ext xstar cur (1 / 100000) \<and>
       buildDualGraph solver (view h wg) xstar useLeastSquare_default = Inr dg \<and>
       optimize_graph ext dg = Inr lambdas \<and>
       findWorstViolatedActiveIneq solver h lambdas = Inr (fi, si) \<and> (fi < 0 \<or> si < 0) \<and>
       updateWorkingSetInplace h wg fi si (- 1) = Inr (False, h))"
proof -
  from run obtain xstar where solve: "optimize_graph ext (view h wg) = Inr xstar"
    by (auto simp: iterateInPlace_def bindE_eq_Inr)
  show ?thesis
  proof (cases "vv_equals ext xstar cur (1 / 100000)")
    case False
    from run show ?thesis
      unfolding iterate_progress [OF solve False]
      by (auto simp: bindE_eq_Inr)
  next
    case True
    from run obtain dg lambdas fi si u h1 where dg: "buildDualGraph solver (view h wg) xstar useLeastSquare_default = Inr dg"
      and lam: "optimize_graph ext dg = Inr lambdas"
      and worst: "findWorstViolatedActiveIneq solver h lambdas = Inr (fi, si)"
      and upd: "updateWorkingSetInplace h wg fi si (- 1) = Inr (u, h1)"
      and res: "(if \<not> u then Inr (True, h1, cur) else Inr (False, h1, cur)) = (Inr (True, h', cur') :: error + bool \<times> store \<times> VectorValues)"
      unfolding iterate_equal [OF solve True]
      by (auto simp: bindE_eq_Inr)
    from res have u: "\<not> u" and h1: "h1 = h'" and c: "cur' = cur"
      by (auto split: if_splits)
    from upd u have f: "updateWorkingSetInplace h wg fi si (- 1) = Inr (False, h1)"
      by simp
    from update_False [OF f] have "h1 = h" and neg: "fi < 0 \<or> si < 0"
      by simp_all
    with f solve True dg lam worst h1 c show ?thesis
      by blast
  qed
qed

section \<open>Facts about the store\<close>

lemma load_append: "a < length h \<Longrightarrow> load (h @ cs) a = load h a"
  by (simp add: load_def nth_append)

lemma cloneFrom_props:
  assumes "cloneFrom src h ps = (h', g)"
  shows "(\<exists>cs. h' = h @ cs) \<and> length g = length ps \<and>
     (\<forall>a. Some a \<in> set g \<longrightarrow> length h \<le> a \<and> a < length h') \<and>
     view h' g = view src ps"
  using assms
proof (induction src h ps arbitrary: h' g rule: cloneFrom.induct)
  case (1 src h)
  then show ?case by (simp add: view_def)
next
  case (2 src h ps)
  from "2.prems" obtain g1 where c: "cloneFrom src h ps = (h', g1)" and g: "g = None # g1"
    by (auto split: prod.splits)
  from "2.IH" [OF c] show ?case
    by (auto simp: g view_def)
next
  case (3 src h a ps)
  show ?case
  proof (cases "load src a")
    case None
    with "3.prems" obtain g1 where c: "cloneFrom src h ps = (h', g1)" and g: "g = None # g1"
      by (auto split: prod.splits)
    from "3.IH"(1) [OF None c] show ?thesis
      by (auto simp: g view_def None)
  next
    case (Some f)
    with "3.prems" obtain g1 where c: "cloneFrom src (h @ [f]) ps = (h', g1)"
      and g: "g = Some (length h) # g1"
      by (auto split: prod.splits)
    from "3.IH"(2) [OF Some c] obtain cs where h': "h' = (h @ [f]) @ cs"
      and len: "length g1 = length ps"
      and fresh: "\<forall>a. Some a \<in> set g1 \<longrightarrow> length (h @ [f]) \<le> a \<and> a < length h'"
      and v: "view h' g1 = view src ps"
      by blast
    have "load h' (length h) = Some f"
      by (simp add: h' load_def nth_append)
    with h' len fresh v show ?thesis
      by (auto simp: g view_def Some)
  qed
qed

lemma update_frame:
  assumes "updateWorkingSetInplace h wg fi si v = Inr (u, h')"
  shows "length h' = length h \<and> (\<forall>a. Some a \<notin> set wg \<longrightarrow> h' ! a = h ! a)"
proof (cases "fi < 0 \<or> si < 0")
  case True
  with assms show ?thesis
    by (simp add: updateWorkingSetInplace_def)
next
  case False
  with assms obtain a x where ref: "ref_at wg (nat fi) = Inr (Some a)" and h': "h' = h[a := x]"
    by (auto simp: updateWorkingSetInplace_def bindE_eq_Inr deref_eq_Inr split: if_splits)
  from ref have "nat fi < length wg" "wg ! nat fi = Some a"
    by (auto simp: ref_at_def split: if_splits)
  then have "Some a \<in> set wg"
    using nth_mem by force
  then have "\<forall>b. Some b \<notin> set wg \<longrightarrow> a \<noteq> b"
    by blast
  then show ?thesis
    by (simp add: h')
qed

lemma iterate_frame:
  assumes "iterateInPlace ext solver h wg cur = Inr (r, h', cur')"
  shows "length h' = length h \<and> (\<forall>a. Some a \<notin> set wg \<longrightarrow> h' ! a = h ! a)"
proof -
  from assms obtain xstar where solve: "optimize_graph ext (view h wg) = Inr xstar"
    by (auto simp: iterateInPlace_def bindE_eq_Inr)
  show ?thesis
  proof (cases "vv_equals ext xstar cur (1 / 100000)")
    case True
    from assms obtain fi si u where "updateWorkingSetInplace h wg fi si (- 1) = Inr (u, h')"
      unfolding iterate_equal [OF solve True]
      by (auto simp: bindE_eq_Inr split: if_splits)
    then show ?thesis
      by (rule update_frame)
  next
    case False
    from assms obtain fi si u where "updateWorkingSetInplace h wg fi si 0 = Inr (u, h')"
      unfolding iterate_progress [OF solve False]
      by (auto simp: bindE_eq_Inr)
    then show ?thesis
      by (rule update_frame)
  qed
qed

lemma iterates_frame:
  assumes "iterates ext solver wg (h1, c1) s'"
  shows "length (fst s') = length h1 \<and> (\<forall>a. Some a \<notin> set wg \<longrightarrow> fst s' ! a = h1 ! a)"
  using assms
proof (induction rule: iterates.induct)
  case start
  show ?case by simp
next
  case (step h2 c2 r h3 c3)
  from iterate_frame [OF step.hyps(2)] step.IH show ?case
    by simp
qed

lemma iterates_prepend:
  assumes "iterates ext solver wg (h2, c2) s'"
    and "iterateInPlace ext solver h1 wg c1 = Inr (r, h2, c2)"
  shows "iterates ext solver wg (h1, c1) s'"
  using assms
proof (induction rule: iterates.induct)
  case start
  have "iterates ext solver wg (h1, c1) (h1, c1)"
    by (rule iterates.start)
  then show ?case
    using start by (rule iterates.step)
next
  case (step h3 c3 r' h4 c4)
  from step.IH [OF step.prems] step.hyps(2) show ?case
    by (rule iterates.step)
qed

lemma optimize_loop_iterates:
  assumes "optimize_loop n ext solver h wg cur = Some (Inr (h', x))"
  shows "iterates ext solver wg (h, cur) (h', x)"
  using assms
proof (induction n arbitrary: h cur)
  case 0
  then show ?case by simp
next
  case (Suc n)
  from Suc.prems obtain r h2 c2 where it: "iterateInPlace ext solver h wg cur = Inr (r, h2, c2)"
    by (auto split: sum.splits)
  show ?case
  proof (cases r)
    case True
    with Suc.prems it have "h' = h2" "x = c2"
      by simp_all
    moreover have "iterates ext solver wg (h, cur) (h2, c2)"
      by (rule iterates.step [OF iterates.start it])
    ultimately show ?thesis by simp
  next
    case False
    with Suc.prems it have "optimize_loop n ext solver h2 wg c2 = Some (Inr (h', x))"
      by simp
    from Suc.IH [OF this] it show ?thesis
      by (rule iterates_prepend)
  qed
qed

section \<open>Facts about the cost-subgraph aggregator\<close>

lemma prefix_update:
  assumes "k < n"
  shows "(map g (take k xs) @ replicate (n - k) (0 :: real))[length (map g (take k xs)) := v] =
     map g (take k xs) @ v # replicate (n - Suc k) 0"
proof -
  have "replicate (n - k) (0 :: real) = 0 # replicate (n - Suc k) 0"
    using assms by (simp add: Suc_diff_Suc flip: replicate_Suc)
  then show ?thesis
    by (simp add: list_update_append)
qed

lemma precisionStep_prefix:
  assumes k: "k < length sgs"
  shows "precisionStep sgs k
       (map (\<lambda>x. if x \<le> 1 / 1000000000 then 0 else 1 / x) (take k sgs) @
          replicate (length sgs - k) 0,
        \<exists>x \<in> set (take k sgs). 1 / 1000000000 < x) =
     (map (\<lambda>x. if x \<le> 1 / 1000000000 then 0 else 1 / x) (take (Suc k) sgs) @
        replicate (length sgs - Suc k) 0,
      \<exists>x \<in> set (take (Suc k) sgs). 1 / 1000000000 < x)"
proof -
  let ?f = "\<lambda>x. if x \<le> 1 / 1000000000 then (0 :: real) else 1 / x"
  have lk: "length (map ?f (take k sgs)) = k"
    using k by simp
  have upd: "(map ?f (take k sgs) @ replicate (length sgs - k) 0)[k := v] =
      map ?f (take k sgs) @ v # replicate (length sgs - Suc k) 0" for v
    using prefix_update [OF k, of ?f sgs v] unfolding lk .
  have tk: "take (Suc k) sgs = take k sgs @ [sgs ! k]"
    using k by (simp add: take_Suc_conv_app_nth)
  show ?thesis
  proof (cases "sgs ! k \<le> 1 / 1000000000")
    case True
    then have "precisionStep sgs k (map ?f (take k sgs) @ replicate (length sgs - k) 0,
        \<exists>x \<in> set (take k sgs). 1 / 1000000000 < x) =
      ((map ?f (take k sgs) @ replicate (length sgs - k) 0)[k := 0],
        \<exists>x \<in> set (take k sgs). 1 / 1000000000 < x)"
      unfolding precisionStep_def by simp
    also have "\<dots> = (map ?f (take k sgs) @ 0 # replicate (length sgs - Suc k) 0,
        \<exists>x \<in> set (take k sgs). 1 / 1000000000 < x)"
      unfolding upd ..
    also have "\<dots> = (map ?f (take (Suc k) sgs) @ replicate (length sgs - Suc k) 0,
        \<exists>x \<in> set (take (Suc k) sgs). 1 / 1000000000 < x)"
      unfolding tk using True by auto
    finally show ?thesis .
  next
    case False
    then have "precisionStep sgs k (map ?f (take k sgs) @ replicate (length sgs - k) 0,
        \<exists>x \<in> set (take k sgs). 1 / 1000000000 < x) =
      ((map ?f (take k sgs) @ replicate (length sgs - k) 0)[k := 1 / (sgs ! k)], True)"
      unfolding precisionStep_def by simp
    also have "\<dots> = (map ?f (take k sgs) @ (1 / (sgs ! k)) # replicate (length sgs - Suc k) 0, True)"
      unfolding upd ..
    also have "\<dots> = (map ?f (take (Suc k) sgs) @ replicate (length sgs - Suc k) 0,
        \<exists>x \<in> set (take (Suc k) sgs). 1 / 1000000000 < x)"
      unfolding tk using False by auto
    finally show ?thesis .
  qed
qed

lemma precision_fold:
  assumes "k \<le> length sgs"
  shows "fold (precisionStep sgs) [0..<k] (replicate (length sgs) 0, False) =
     (map (\<lambda>x. if x \<le> 1 / 1000000000 then 0 else 1 / x) (take k sgs) @ replicate (length sgs - k) 0,
      \<exists>x \<in> set (take k sgs). 1 / 1000000000 < x)"
  using assms
proof (induction k)
  case 0
  show ?case by simp
next
  case (Suc k)
  then have k: "k < length sgs" and le: "k \<le> length sgs"
    by simp_all
  have "fold (precisionStep sgs) [0..<Suc k] (replicate (length sgs) 0, False) =
      precisionStep sgs k (fold (precisionStep sgs) [0..<k] (replicate (length sgs) 0, False))"
    by simp
  also have "\<dots> = precisionStep sgs k
       (map (\<lambda>x. if x \<le> 1 / 1000000000 then 0 else 1 / x) (take k sgs) @
          replicate (length sgs - k) 0,
        \<exists>x \<in> set (take k sgs). 1 / 1000000000 < x)"
    unfolding Suc.IH [OF le] ..
  also note precisionStep_prefix [OF k]
  finally show ?case .
qed

lemma newPrecisionsOf_eq:
  "newPrecisionsOf sgs =
     (map (\<lambda>x. if x \<le> 1 / 1000000000 then 0 else 1 / x) sgs, \<exists>x \<in> set sgs. 1 / 1000000000 < x)"
  using precision_fold [of "length sgs" sgs] by (simp add: newPrecisionsOf_def)

lemma hessianStep_constrained:
  assumes "graph_idx graph factorIndex = Inr (Some (Jacobian jf))" "jmodel jf = Some m"
    "isConstrained m"
  shows "hessianStep ext graph factorIndex hfg =
     Inr (if \<exists>x \<in> set (sigmas m). 1 / 1000000000 < x
          then hfg @ [hessianOf ext (jf\<lparr>jmodel := Some (Diagonal_Precisions
                 (map (\<lambda>x. if x \<le> 1 / 1000000000 then 0 else 1 / x) (sigmas m)))\<rparr>)]
          else hfg)"
  using assms by (simp add: hessianStep_def newPrecisionsOf_eq)

section \<open>Facts about the gradient of the dual graph\<close>

lemma find_pos: "length (takeWhile (\<lambda>x. x \<noteq> k) xs) < length xs \<longleftrightarrow> k \<in> set xs"
  by (induction xs) auto

lemma find_nth: "k \<in> set xs \<Longrightarrow> xs ! length (takeWhile (\<lambda>x. x \<noteq> k) xs) = k"
  by (induction xs) auto

lemma find_end: "k \<notin> set xs \<Longrightarrow> length (takeWhile (\<lambda>x. x \<noteq> k) xs) = length xs"
  by (induction xs) auto

lemma hfind_less: "hfind F v < length (hkeys F) \<longleftrightarrow> v \<in> set (hkeys F)"
  by (simp add: hfind_def find_pos)

lemma hfind_nth: "v \<in> set (hkeys F) \<Longrightarrow> hkeys F ! hfind F v = v"
  by (simp add: hfind_def find_nth)

lemma hfind_end: "v \<notin> set (hkeys F) \<Longrightarrow> hfind F v = length (hkeys F)"
  by (simp add: hfind_def find_end)

lemma dot_sum:
  fixes a b :: "real list"
  assumes "length a = length b"
  shows "sum_list (map2 (*) a b) = (\<Sum>c < length b. a ! c * b ! c)"
proof -
  have "sum_list (map2 (*) a b) = (\<Sum>c = 0..<length (map2 (*) a b). map2 (*) a b ! c)"
    by (rule sum_list_sum_nth)
  also have "\<dots> = (\<Sum>c = 0..<length b. a ! c * b ! c)"
    using assms by (intro sum.cong) simp_all
  finally show ?thesis
    by (simp add: atLeast0LessThan)
qed


lemma info_G_block:
  assumes "i < length (hkeys F)" "j < length (hkeys F)"
  shows "(if i > j then bindE (info F j i) (\<lambda>Gji. Inr (mat_transpose Gji)) else info F i j) =
     Inr (G_block F i j)"
  using assms by (simp add: info_def G_block_def)

lemma gradTerm_entry:
  assumes i: "i < length (hkeys F)" and j: "j < length (hkeys F)"
    and xj: "x (hkeys F ! j) = Some xj"
    and rows: "length (G_block F i j) = d"
    and cols: "\<forall>row \<in> set (G_block F i j). length row = length xj"
    and acc: "length acc = d"
  shows "\<exists>acc'. gradTerm F i x j acc = Inr acc' \<and> length acc' = d \<and>
     (\<forall>r < d. acc' ! r = acc ! r + (\<Sum>c < length xj. G_block F i j ! r ! c * xj ! c))"
proof -
  let ?G = "G_block F i j"
  let ?v = "map (\<lambda>row. sum_list (map2 (*) row xj)) ?G"
  have mv: "mat_vec ?G xj = Inr ?v"
    using cols by (simp add: mat_vec_def)
  have lv: "length ?v = d"
    using rows by simp
  have add: "vec_add acc ?v = Inr (map2 (+) acc ?v)"
    using acc lv by (simp add: vec_add_def)
  have run: "gradTerm F i x j acc = Inr (map2 (+) acc ?v)"
    unfolding gradTerm_def info_G_block [OF i j]
    by (simp add: vv_at_def xj mv add)
  have entry: "map2 (+) acc ?v ! r = acc ! r + (\<Sum>c < length xj. ?G ! r ! c * xj ! c)"
    if r: "r < d" for r
  proof -
    have "?G ! r \<in> set ?G"
      using r rows by simp
    with cols have "length (?G ! r) = length xj"
      by blast
    then have "sum_list (map2 (*) (?G ! r) xj) = (\<Sum>c < length xj. ?G ! r ! c * xj ! c)"
      by (rule dot_sum)
    then show ?thesis
      using r rows acc by simp
  qed
  have "length (map2 (+) acc ?v) = d"
    using acc lv by simp
  with run entry show ?thesis
    by blast
qed

text \<open>The loop over the keys of one factor, up to \<open>m\<close> keys.\<close>

lemma gradTerm_fold:
  assumes i: "i = hfind F v" "i < length (hkeys F)"
    and wf: "\<forall>j < length (hkeys F). \<exists>xj. x (hkeys F ! j) = Some xj \<and>
           length (G_block F i j) = d \<and> (\<forall>row \<in> set (G_block F i j). length row = length xj)"
    and acc: "length acc = d" and m: "m \<le> length (hkeys F)"
  shows "\<exists>acc'. foldE (gradTerm F i x) [0..<m] acc = Inr acc' \<and> length acc' = d \<and>
     (\<forall>r < d. acc' ! r = acc ! r + (\<Sum>j < m. block_product F v x r j))"
  using m
proof (induction m)
  case 0
  show ?case
    using acc by simp
next
  case (Suc m)
  then have m: "m < length (hkeys F)"
    by simp
  from Suc obtain a1 where f1: "foldE (gradTerm F i x) [0..<m] acc = Inr a1" and l1: "length a1 = d"
    and e1: "\<forall>r < d. a1 ! r = acc ! r + (\<Sum>j < m. block_product F v x r j)"
    by auto
  from wf m obtain xj where xj: "x (hkeys F ! m) = Some xj" and rows: "length (G_block F i m) = d"
    and cols: "\<forall>row \<in> set (G_block F i m). length row = length xj"
    by blast
  from gradTerm_entry [of i F m x xj d a1, OF i(2) m xj rows cols l1] obtain a2 where
    f2: "gradTerm F i x m a1 = Inr a2" and l2: "length a2 = d"
    and e2: "\<forall>r < d. a2 ! r = a1 ! r + (\<Sum>c < length xj. G_block F i m ! r ! c * xj ! c)"
    by blast
  have bp: "block_product F v x r m = (\<Sum>c < length xj. G_block F i m ! r ! c * xj ! c)" for r
    by (simp add: block_product_def xj i(1))
  have run: "foldE (gradTerm F i x) [0..<Suc m] acc = Inr a2"
    by (simp add: foldE_append f1 f2)
  have "\<forall>r < d. a2 ! r = acc ! r + (\<Sum>j < Suc m. block_product F v x r j)"
    using e1 e2 by (simp add: bp)
  with run l2 show ?case
    by blast
qed

lemma gradFactor_entry:
  assumes k: "k < length hfg" and v: "v \<in> set (hkeys (hfg ! k))"
    and lin: "length (hlinear (hfg ! k) (hfind (hfg ! k) v)) = d"
    and wf: "\<forall>j < length (hkeys (hfg ! k)). \<exists>xj. x (hkeys (hfg ! k) ! j) = Some xj \<and>
           length (G_block (hfg ! k) (hfind (hfg ! k) v) j) = d \<and>
           (\<forall>row \<in> set (G_block (hfg ! k) (hfind (hfg ! k) v) j). length row = length xj)"
    and acc: "length acc = d"
  shows "\<exists>acc'. gradFactor hfg v x k acc = Inr acc' \<and> length acc' = d \<and>
     (\<forall>r < d. acc' ! r = acc ! r + factor_gradient (hfg ! k) v x r)"
proof -
  let ?F = "hfg ! k"
  let ?i = "hfind ?F v"
  have i: "?i < length (hkeys ?F)"
    using v by (simp add: hfind_less)
  from gradTerm_fold [of ?i ?F v x d acc "length (hkeys ?F)", OF refl i wf acc le_refl] obtain g where
    fold: "foldE (gradTerm ?F ?i x) [0..<length (hkeys ?F)] acc = Inr g" and lg: "length g = d"
    and eg: "\<forall>r < d. g ! r = acc ! r + (\<Sum>j < length (hkeys ?F). block_product ?F v x r j)"
    by blast
  have lt: "linearTerm ?F ?i = Inr (hlinear ?F ?i)"
    using i by (simp add: linearTerm_def)
  have add: "vec_add g (vec_neg (hlinear ?F ?i)) = Inr (map2 (+) g (vec_neg (hlinear ?F ?i)))"
    using lg lin by (simp add: vec_add_def vec_neg_def)
  have run: "gradFactor hfg v x k acc = Inr (map2 (+) g (vec_neg (hlinear ?F ?i)))"
    using k by (simp add: gradFactor_def hess_at_def fold lt add)
  have "\<forall>r < d. map2 (+) g (vec_neg (hlinear ?F ?i)) ! r = acc ! r + factor_gradient ?F v x r"
    using lg lin eg by (simp add: vec_neg_def factor_gradient_def)
  moreover have "length (map2 (+) g (vec_neg (hlinear ?F ?i))) = d"
    using lg lin by (simp add: vec_neg_def)
  ultimately show ?thesis
    using run by blast
qed

lemma gradFactor_fold:
  assumes wf: "grad_wf hfg v ks x d" and acc: "length acc = d"
  shows "\<exists>acc'. foldE (gradFactor hfg v x) ks acc = Inr acc' \<and> length acc' = d \<and>
     (\<forall>r < d. acc' ! r = acc ! r + spec_gradient hfg v ks x r)"
  using assms
proof (induction ks arbitrary: acc)
  case Nil
  then show ?case
    by (simp add: spec_gradient_def)
next
  case (Cons k ks)
  from Cons.prems(1) have k: "k < length hfg" and v: "v \<in> set (hkeys (hfg ! k))"
    and lin: "length (hlinear (hfg ! k) (hfind (hfg ! k) v)) = d"
    and wfk: "\<forall>j < length (hkeys (hfg ! k)). \<exists>xj. x (hkeys (hfg ! k) ! j) = Some xj \<and>
           length (G_block (hfg ! k) (hfind (hfg ! k) v) j) = d \<and>
           (\<forall>row \<in> set (G_block (hfg ! k) (hfind (hfg ! k) v) j). length row = length xj)"
    and rest: "grad_wf hfg v ks x d"
    by (simp_all add: grad_wf_def)
  from gradFactor_entry [of k hfg v d x acc, OF k v lin wfk Cons.prems(2)] obtain a1 where
    f1: "gradFactor hfg v x k acc = Inr a1" and l1: "length a1 = d"
    and e1: "\<forall>r < d. a1 ! r = acc ! r + factor_gradient (hfg ! k) v x r"
    by blast
  from Cons.IH [OF rest l1] obtain a2 where
    f2: "foldE (gradFactor hfg v x) ks a1 = Inr a2" and l2: "length a2 = d"
    and e2: "\<forall>r < d. a2 ! r = a1 ! r + spec_gradient hfg v ks x r"
    by blast
  have "foldE (gradFactor hfg v x) (k # ks) acc = Inr a2"
    by (simp add: f1 f2)
  moreover have "\<forall>r < d. a2 ! r = acc ! r + spec_gradient hfg v (k # ks) x r"
    using e1 e2 by (simp add: spec_gradient_def)
  ultimately show ?case
    using l2 by blast
qed

lemma gradf_entry:
  assumes dim: "xiDimOf hfg v = Inr d" and wf: "grad_wf hfg v ks x d"
  shows "\<exists>g. gradf hfg v ks x = Inr g \<and> length g = d \<and>
     (\<forall>r < d. g ! r = spec_gradient hfg v ks x r)"
proof -
  have "length (zero d) = d"
    by (simp add: zero_def)
  from gradFactor_fold [OF wf this] obtain g where
    "foldE (gradFactor hfg v x) ks (zero d) = Inr g" "length g = d"
    "\<forall>r < d. g ! r = zero d ! r + spec_gradient hfg v ks x r"
    by blast
  then show ?thesis
    by (auto simp: gradf_def dim zero_def)
qed

text \<open>The gradient has the length read from the first factor, whatever the factors hold.\<close>

lemma vec_add_length: "vec_add a b = Inr c \<Longrightarrow> length c = length a"
  by (auto simp: vec_add_def split: if_splits)

lemma gradTerm_length: "gradTerm F i x j acc = Inr acc' \<Longrightarrow> length acc' = length acc"
  by (auto simp: gradTerm_def bindE_eq_Inr dest: vec_add_length)

lemma gradFactor_length:
  assumes "gradFactor hfg v x k acc = Inr acc'"
  shows "length acc' = length acc"
proof -
  from assms obtain F g gi where fold: "foldE (gradTerm F (hfind F v) x) [0..<length (hkeys F)] acc = Inr g"
    and add: "vec_add g (vec_neg gi) = Inr acc'"
    by (auto simp: gradFactor_def bindE_eq_Inr)
  have "length g = length acc"
    by (rule foldE_invariant [where P = "\<lambda>a. length a = length acc", OF fold])
      (auto dest: gradTerm_length)
  with vec_add_length [OF add] show ?thesis
    by simp
qed

lemma gradf_length:
  assumes "gradf hfg v ks x = Inr g" "xiDimOf hfg v = Inr d"
  shows "length g = d"
proof -
  from assms have fold: "foldE (gradFactor hfg v x) ks (zero d) = Inr g"
    by (simp add: gradf_def)
  have "length g = length (zero d)"
    by (rule foldE_invariant [where P = "\<lambda>a. length a = length (zero d)", OF fold])
      (auto dest: gradFactor_length)
  then show ?thesis
    by (simp add: zero_def)
qed

lemma priorStep_appends:
  assumes "foldE (priorStep graph) ys dg0 = Inr dg'"
  shows "\<exists>priors. dg' = dg0 @ priors"
proof (rule foldE_invariant [where P = "\<lambda>dg. \<exists>priors. dg = dg0 @ priors", OF assms])
  show "\<exists>priors. dg0 = dg0 @ priors"
    by simp
next
  fix y s s'
  assume "\<exists>priors. s = dg0 @ priors" "priorStep graph y s = Inr s'"
  then show "\<exists>priors. s' = dg0 @ priors"
    by (cases y) (auto simp: priorStep_def bindE_eq_Inr split: if_splits)
qed

lemma dualStep_rhs:
  assumes ne: "xiFactors \<noteq> []"
    and run: "dualStep solver graph x ls (v, xiFactors) dg = Inr dg'"
  shows "\<exists>g terms priors. gradf (freeHessians solver) v xiFactors x = Inr g \<and>
     dg' = dg @ Some (Jacobian \<lparr>jkeys = map fst terms, jA = map snd terms, jb = g,
             jmodel = Some (if ls then Unit_Create (length g) else Constrained_All (length g))\<rparr>) # priors"
proof -
  from run ne obtain g fs terms ui where g: "gradf (freeHessians solver) v xiFactors x = Inr g"
    and fold: "foldE (priorStep graph) ui
        (dg @ [Some (Jacobian \<lparr>jkeys = map fst terms, jA = map snd terms, jb = g,
             jmodel = Some (if ls then Unit_Create (length g) else Constrained_All (length g))\<rparr>)]) = Inr dg'"
    by (auto simp: dualStep_def bindE_eq_Inr)
  from priorStep_appends [OF fold] g show ?thesis
    by auto
qed

lemma dualStep_extends:
  assumes "dualStep solver graph x ls e dg = Inr dg'"
  shows "set dg \<subseteq> set dg'"
proof (cases e)
  case (Pair v ks)
  show ?thesis
  proof (cases "ks = []")
    case True
    with assms Pair show ?thesis
      by (simp add: dualStep_def)
  next
    case False
    from dualStep_rhs [OF False assms [unfolded Pair]] show ?thesis
      by auto
  qed
qed

section \<open>Facts about the constructor\<close>

text \<open>The constructor collects the constraint indices in increasing order and keeps the graph.\<close>

lemma QPSolver_new_sorted:
  assumes "QPSolver_new ext n h g = Inr solver"
  shows "sorted_wrt (<) (constraintIndices solver)"
proof -
  from assms have "constraintIndices solver = filter (isConstraintFactor (view h g)) [0..<n]"
    by (auto simp: QPSolver_new_def Let_def bindE_eq_Inr split: if_splits)
  then show ?thesis
    by (simp add: sorted_wrt_filter)
qed

lemma QPSolver_new_graph:
  assumes "QPSolver_new ext n h g = Inr solver"
  shows "graph0 solver = g"
  using assms by (auto simp: QPSolver_new_def Let_def bindE_eq_Inr split: if_splits)

text \<open>
  In the solver object the constructor builds, the factors listed for a variable of the
  cost subgraph are exactly the factors of the cost subgraph that have its key.
\<close>

lemma VariableIndex_of_entry:
  assumes "(k, fs) \<in> set (VariableIndex_of g)"
  shows "fs = filter (touches g k) [0..<length g]"
  using assms by (auto simp: VariableIndex_of_def)

lemma QPSolver_new_index:
  assumes "QPSolver_new ext n h g = Inr solver"
    and "(v, xiFactors) \<in> set (freeHessianFactorIndex solver)"
  shows "set xiFactors = {k. k < length (freeHessians solver) \<and> v \<in> set (hkeys (freeHessians solver ! k))}"
proof -
  let ?G = "map (\<lambda>f. Some (Hessian f)) (freeHessians solver)"
  from assms(1) have "freeHessianFactorIndex solver = VariableIndex_of ?G"
    by (auto simp: QPSolver_new_def Let_def bindE_eq_Inr split: if_splits)
  with assms(2) have "(v, xiFactors) \<in> set (VariableIndex_of ?G)"
    by simp
  from VariableIndex_of_entry [OF this] have "xiFactors = filter (touches ?G v) [0..<length ?G]" .
  then show ?thesis
    by (auto simp: touches_def)
qed

section \<open>Evaluation of the small problem\<close>

lemmas ex_defs = ex_solver_def ex_store_def ex_graph_def ex_ineq_def ex_cost_def
  ex_x3_def ex_x7_def ex_p1_def ex_p2_def ex_p4_def ex_lambda_pos_def ex_lambda_neg_def
  ex_hessian_def ex_x5_def ex_x7near_def ex_mixed_def ex_tiny_def
  ex_hessian2_def ex_x12_def ex_solver2_def ex_solver5_def
  ex_tie_def ex_tie_solver_def
  ex_cost1_def ex_ineq01_def ex_store3_def ex_graph3_def ex_hessian1_def ex_ext3_def ex_solver3_def

lemmas step_defs = computeStepSize_def stepFactor_def stepRow_def rowDot_def rowDotStep_def
  view_def load_def graph_at_def deref_def vv_at_def getA_def row_def dot_def coeff_def
  int_of_size_t_def

lemmas worst_defs = findWorstViolatedActiveIneq_def worstFactor_def worstRow_def
  view_def load_def graph_at_def deref_def vv_at_def coeff_def int_of_size_t_def

lemmas ext_defs = ex_ext_def ex_optimize_def ex_scalar_def ex_binop_def ex_equals_def ex_scale_def

lemmas dual_defs = buildDualGraph_def dualStep_def gradf_def xiDimOf_def gradFactor_def
  gradTerm_def hess_at_def getDim_def hfind_def jfind_def info_def linearTerm_def
  mat_vec_def vec_add_def vec_neg_def zero_def zeros_def mat_transpose_def cols_def
  lambdaStep_def lambdaSigma_def set_col_zero_def priorStep_def index_at_def dim_def
  useLeastSquare_default_def

lemmas update_defs = updateWorkingSetInplace_def ref_at_def setModel_def

lemmas hess_defs = hessianStep_def newPrecisionsOf_def precisionStep_def graph_idx_def

text \<open>The solver object of the small problem is the one the constructor builds.\<close>

lemma ex_solver_constructed: "QPSolver_new ex_ext 2 ex_store ex_graph = Inr ex_solver"
  by (simp add: QPSolver_new_def Let_def isConstraintFactor_def insertKeys_def numeral_2_eq_2
      unconstrainedHessiansOfConstrainedVars_def collectFactors_def VariableIndex_of_def
      allKeys_def touches_def fastset_insert_def index_at_def hess_defs ex_defs ext_defs
      view_def load_def)

section \<open>The working-set update\<close>

text \<open>
  Claim C7. \<open>updateWorkingSetInplace\<close> returns false and leaves the store as it is when the
  factor index or the row index is negative. For non-negative indices that designate a row
  of a row factor of the working graph, it returns true, the designated row's scale is the
  given value, every other scale of that factor, its keys, coefficients and right-hand
  side are unchanged, and so is every other object of the store.
\<close>

theorem updateWorkingSetInplace_spec:
  "(factorIx < 0 \<or> sigmaIx < 0 \<longrightarrow>
      updateWorkingSetInplace h wg factorIx sigmaIx newSigma = Inr (False, h)) \<and>
   (0 \<le> factorIx \<and> 0 \<le> sigmaIx \<and> ref_at wg (nat factorIx) = Inr (Some a) \<and>
    load h a = Some (Jacobian jf) \<and> jmodel jf = Some m \<and> nat sigmaIx < length (sigmas m) \<longrightarrow>
      (\<exists>h' jf' m'. updateWorkingSetInplace h wg factorIx sigmaIx newSigma = Inr (True, h') \<and>
         load h' a = Some (Jacobian jf') \<and> jmodel jf' = Some m' \<and>
         jkeys jf' = jkeys jf \<and> jA jf' = jA jf \<and> jb jf' = jb jf \<and>
         length (sigmas m') = length (sigmas m) \<and>
         sigmas m' ! nat sigmaIx = newSigma \<and>
         (\<forall>j. j \<noteq> nat sigmaIx \<longrightarrow> sigmas m' ! j = sigmas m ! j) \<and>
         length h' = length h \<and>
         (\<forall>a'. a' \<noteq> a \<longrightarrow> load h' a' = load h a')))"
  by (auto simp: updateWorkingSetInplace_def deref_def load_def setModel_def split: if_splits)

theorem updateWorkingSetInplace_spec_witness:
  "updateWorkingSetInplace ex_store ex_graph (- 1) (- 1) 0 = Inr (False, ex_store) \<and>
   (\<exists>h' jf' m'. updateWorkingSetInplace ex_store ex_graph 1 0 0 = Inr (True, h') \<and>
         load h' 1 = Some (Jacobian jf') \<and> jmodel jf' = Some m' \<and>
         jkeys jf' = jkeys ex_ineq \<and> jA jf' = jA ex_ineq \<and> jb jf' = jb ex_ineq \<and>
         length (sigmas m') = length (sigmas (Constrained_MixedSigmas [- 1])) \<and>
         sigmas m' ! nat 0 = 0 \<and>
         (\<forall>j. j \<noteq> nat 0 \<longrightarrow> sigmas m' ! j = sigmas (Constrained_MixedSigmas [- 1]) ! j) \<and>
         length h' = length ex_store \<and>
         (\<forall>a'. a' \<noteq> 1 \<longrightarrow> load h' a' = load ex_store a'))"
proof -
  have neg: "(- 1 :: int) < 0 \<or> (- 1 :: int) < 0"
    by simp
  have pre: "0 \<le> (1::int) \<and> 0 \<le> (0::int) \<and> ref_at ex_graph (nat 1) = Inr (Some 1) \<and>
    load ex_store 1 = Some (Jacobian ex_ineq) \<and>
    jmodel ex_ineq = Some (Constrained_MixedSigmas [- 1]) \<and>
    nat 0 < length (sigmas (Constrained_MixedSigmas [- 1]))"
    by (simp add: ref_at_def ex_graph_def load_def ex_store_def ex_ineq_def)
  have first: "updateWorkingSetInplace ex_store ex_graph (- 1) (- 1) 0 = Inr (False, ex_store)"
    by (rule mp [OF conjunct1 [OF updateWorkingSetInplace_spec] neg])
  have second: "\<exists>h' jf' m'. updateWorkingSetInplace ex_store ex_graph 1 0 0 = Inr (True, h') \<and>
         load h' 1 = Some (Jacobian jf') \<and> jmodel jf' = Some m' \<and>
         jkeys jf' = jkeys ex_ineq \<and> jA jf' = jA ex_ineq \<and> jb jf' = jb ex_ineq \<and>
         length (sigmas m') = length (sigmas (Constrained_MixedSigmas [- 1])) \<and>
         sigmas m' ! nat 0 = 0 \<and>
         (\<forall>j. j \<noteq> nat 0 \<longrightarrow> sigmas m' ! j = sigmas (Constrained_MixedSigmas [- 1]) ! j) \<and>
         length h' = length ex_store \<and>
         (\<forall>a'. a' \<noteq> 1 \<longrightarrow> load h' a' = load ex_store a')"
    by (rule mp [OF conjunct2 [OF updateWorkingSetInplace_spec] pre])
  from first second show ?thesis
    by (rule conjI)
qed

section \<open>The ratio test\<close>

text \<open>
  Claim C2, as the code has it. When the rows the ratio test reads are well formed and the
  only inactive inequality row of the constraint factors has \<open>a_row \<cdot> p = 2\<close>,
  \<open>a_row \<cdot> x_k = 3\<close> and \<open>b_row = 5\<close>, \<open>computeStepSize\<close> returns the step \<open>1\<close> together
  with the pair \<open>(-1, -1)\<close>: the candidate \<open>(5 - 3) / 2 = 1\<close> is not below the
  initial bound \<open>1\<close>, so the row is not reported as blocking, and the activation the
  driver then asks for is the rejected call on \<open>(-1, -1)\<close>, which changes nothing.
\<close>

theorem computeStepSize_boundary:
  assumes wf: "stepsize_wf solver wg xk p"
    and row: "f \<in> set (constraintIndices solver)" "inactiveRow wg xk p f s 2 3 5"
    and single: "\<forall>f' \<in> set (constraintIndices solver). \<forall>s' ap ax bs.
       inactiveRow wg xk p f' s' ap ax bs \<longrightarrow> f' = f \<and> s' = s"
  shows "computeStepSize solver wg xk p = Inr (1, - 1, - 1) \<and>
         updateWorkingSetInplace h workingGraph (- 1) (- 1) 0 = Inr (False, h)"
proof -
  from computeStepSize_total [OF wf] obtain st where run: "computeStepSize solver wg xk p = Inr st"
    by blast
  have att: "attained (constraintIndices solver) wg xk p st"
    by (rule computeStepSize_attained [OF run])
  have "st = (1, - 1, - 1)"
  proof (rule ccontr)
    assume "st \<noteq> (1, - 1, - 1)"
    with att obtain f' s' ap ax bs where lt: "fst st < 1" and f': "f' \<in> set (constraintIndices solver)"
      and r: "inactiveRow wg xk p f' s' ap ax bs" and st: "st = ((bs - ax) / ap, int_of_size_t f', int_of_size_t s')"
      unfolding attained_def by blast
    from single f' r have "f' = f" "s' = s"
      by blast+
    with r row(2) have "ap = 2 \<and> ax = 3 \<and> bs = 5"
      using inactiveRow_unique by blast
    with lt st show False
      by simp
  qed
  with run show ?thesis
    by (simp add: update_sentinel)
qed

text \<open>The small problem with \<open>x_k = 3\<close> and \<open>p = 2\<close> is such an input.\<close>

theorem computeStepSize_boundary_witness:
  "computeStepSize ex_solver (view ex_store ex_graph) ex_x3 ex_p2 = Inr (1, - 1, - 1) \<and>
   updateWorkingSetInplace ex_store ex_graph (- 1) (- 1) 0 = Inr (False, ex_store)"
proof (rule computeStepSize_boundary [where f = 1 and s = 0])
  show "stepsize_wf ex_solver (view ex_store ex_graph) ex_x3 ex_p2"
    by (simp add: stepsize_wf_def rowsReadable_def ex_defs step_defs)
  show "1 \<in> set (constraintIndices ex_solver)"
    by (simp add: ex_defs)
  show "inactiveRow (view ex_store ex_graph) ex_x3 ex_p2 1 0 2 3 5"
    by (simp add: inactiveRow_def ex_defs step_defs)
  show "\<forall>f' \<in> set (constraintIndices ex_solver). \<forall>s' ap ax bs.
       inactiveRow (view ex_store ex_graph) ex_x3 ex_p2 f' s' ap ax bs \<longrightarrow> f' = 1 \<and> s' = 0"
    by (simp add: inactiveRow_def ex_defs step_defs)
qed

text \<open>
  Claim C2 as stated fails there: the row has \<open>a_row \<cdot> p = 2\<close>, \<open>a_row \<cdot> x_k = 3\<close> and
  \<open>b_row = 5\<close>, and the result is the pair \<open>(-1, -1)\<close>, not the indices \<open>(1, 0)\<close> of the row.
\<close>

theorem computeStepSize_boundary_counterexample:
  "inactiveRow (view ex_store ex_graph) ex_x3 ex_p2 1 0 2 3 5 \<and>
   computeStepSize ex_solver (view ex_store ex_graph) ex_x3 ex_p2 = Inr (1, - 1, - 1) \<and>
   computeStepSize ex_solver (view ex_store ex_graph) ex_x3 ex_p2 \<noteq> Inr (1, 1, 0)"
  by (simp add: inactiveRow_def ex_defs step_defs)

text \<open>
  Claim C3, as the code has it. \<open>computeStepSize\<close> returns a result whenever the rows it
  reads are well formed. The step \<open>alpha\<close> it returns is at most \<open>1\<close>; it is at most the
  candidate \<open>(b_row - a_row \<cdot> x_k) / (a_row \<cdot> p)\<close> of every row with a negative scale in
  the working copy and \<open>a_row \<cdot> p > 0\<close>; it is either \<open>1\<close>, with the pair \<open>(-1, -1)\<close>, or
  below \<open>1\<close> and the candidate of such a row, with the indices of that row. With the
  constraint factors in increasing order of their indices, as the constructor leaves
  them, the row reported is the first one that attains the minimum: every row before
  it, in the order of factor index and then row index, has a strictly larger
  candidate. When \<open>x_k\<close> satisfies every inactive row, \<open>alpha\<close> is not negative,
  \<open>x_k + alpha \<cdot> p\<close> satisfies every inactive row, and a larger step violates one of
  them unless \<open>alpha = 1\<close>. The products \<open>a_row \<cdot> p\<close>, \<open>a_row \<cdot> x_k\<close> and the quotient are
  the exact ones, over the reals.
\<close>

theorem computeStepSize_minimum:
  "(stepsize_wf solver wg xk p \<longrightarrow> (\<exists>r. computeStepSize solver wg xk p = Inr r)) \<and>
   (computeStepSize solver wg xk p = Inr (alpha, fi, si) \<longrightarrow>
      alpha \<le> 1 \<and>
      (\<forall>f \<in> set (constraintIndices solver). \<forall>s ap ax bs.
         inactiveRow wg xk p f s ap ax bs \<and> 0 < ap \<longrightarrow> alpha \<le> (bs - ax) / ap) \<and>
      attained (constraintIndices solver) wg xk p (alpha, fi, si) \<and>
      (sorted_wrt (<) (constraintIndices solver) \<longrightarrow>
         (alpha = 1 \<and> fi = - 1 \<and> si = - 1) \<or>
         (alpha < 1 \<and>
          (\<exists>f \<in> set (constraintIndices solver). \<exists>s. stepCandidate wg xk p f s alpha \<and>
             fi = int_of_size_t f \<and> si = int_of_size_t s \<and>
             (\<forall>f' \<in> set (constraintIndices solver). \<forall>s' c'.
                stepCandidate wg xk p f' s' c' \<longrightarrow>
                  alpha \<le> c' \<and> ((f' < f \<or> f' = f \<and> s' < s) \<longrightarrow> alpha < c'))))) \<and>
      ((\<forall>f \<in> set (constraintIndices solver). \<forall>s ap ax bs.
          inactiveRow wg xk p f s ap ax bs \<longrightarrow> ax \<le> bs) \<longrightarrow>
         0 \<le> alpha \<and>
         (\<forall>f \<in> set (constraintIndices solver). \<forall>s ap ax bs.
            inactiveRow wg xk p f s ap ax bs \<longrightarrow> ax + alpha * ap \<le> bs) \<and>
         (\<forall>beta. alpha < beta \<and> alpha < 1 \<longrightarrow>
            (\<exists>f \<in> set (constraintIndices solver). \<exists>s ap ax bs.
               inactiveRow wg xk p f s ap ax bs \<and> bs < ax + beta * ap))))"
proof (intro conjI impI)
  assume "stepsize_wf solver wg xk p"
  then show "\<exists>r. computeStepSize solver wg xk p = Inr r"
    by (rule computeStepSize_total)
next
  assume run: "computeStepSize solver wg xk p = Inr (alpha, fi, si)"
  show "alpha \<le> 1"
    using computeStepSize_le [OF run] by simp
next
  assume run: "computeStepSize solver wg xk p = Inr (alpha, fi, si)"
  show "\<forall>f \<in> set (constraintIndices solver). \<forall>s ap ax bs.
         inactiveRow wg xk p f s ap ax bs \<and> 0 < ap \<longrightarrow> alpha \<le> (bs - ax) / ap"
    using computeStepSize_bound [OF run] by fastforce
next
  assume run: "computeStepSize solver wg xk p = Inr (alpha, fi, si)"
  show "attained (constraintIndices solver) wg xk p (alpha, fi, si)"
    by (rule computeStepSize_attained [OF run])
next
  assume run: "computeStepSize solver wg xk p = Inr (alpha, fi, si)"
    and sorted: "sorted_wrt (<) (constraintIndices solver)"
  show "(alpha = 1 \<and> fi = - 1 \<and> si = - 1) \<or>
         (alpha < 1 \<and>
          (\<exists>f \<in> set (constraintIndices solver). \<exists>s. stepCandidate wg xk p f s alpha \<and>
             fi = int_of_size_t f \<and> si = int_of_size_t s \<and>
             (\<forall>f' \<in> set (constraintIndices solver). \<forall>s' c'.
                stepCandidate wg xk p f' s' c' \<longrightarrow>
                  alpha \<le> c' \<and> ((f' < f \<or> f' = f \<and> s' < s) \<longrightarrow> alpha < c'))))"
    by (rule computeStepSize_first [OF run sorted])
next
  assume run: "computeStepSize solver wg xk p = Inr (alpha, fi, si)"
    and feas: "\<forall>f \<in> set (constraintIndices solver). \<forall>s ap ax bs.
          inactiveRow wg xk p f s ap ax bs \<longrightarrow> ax \<le> bs"
  have att: "attained (constraintIndices solver) wg xk p (alpha, fi, si)"
    by (rule computeStepSize_attained [OF run])
  show "0 \<le> alpha"
  proof (cases "alpha = 1")
    case True
    then show ?thesis by simp
  next
    case False
    with att obtain f s ap ax bs where f: "f \<in> set (constraintIndices solver)"
      and r: "inactiveRow wg xk p f s ap ax bs" and pos: "0 < ap" and a: "alpha = (bs - ax) / ap"
      unfolding attained_def by auto
    from feas f r have "ax \<le> bs"
      by blast
    with pos show ?thesis
      by (simp add: a)
  qed
next
  assume run: "computeStepSize solver wg xk p = Inr (alpha, fi, si)"
    and feas: "\<forall>f \<in> set (constraintIndices solver). \<forall>s ap ax bs.
          inactiveRow wg xk p f s ap ax bs \<longrightarrow> ax \<le> bs"
  have att: "attained (constraintIndices solver) wg xk p (alpha, fi, si)"
    by (rule computeStepSize_attained [OF run])
  have nonneg: "0 \<le> alpha"
  proof (cases "alpha = 1")
    case True
    then show ?thesis by simp
  next
    case False
    with att obtain f s ap ax bs where f: "f \<in> set (constraintIndices solver)"
      and r: "inactiveRow wg xk p f s ap ax bs" and pos: "0 < ap" and a: "alpha = (bs - ax) / ap"
      unfolding attained_def by auto
    from feas f r have "ax \<le> bs"
      by blast
    with pos show ?thesis
      by (simp add: a)
  qed
  show "\<forall>f \<in> set (constraintIndices solver). \<forall>s ap ax bs.
            inactiveRow wg xk p f s ap ax bs \<longrightarrow> ax + alpha * ap \<le> bs"
  proof (intro ballI allI impI)
    fix f s ap ax bs
    assume f: "f \<in> set (constraintIndices solver)" and r: "inactiveRow wg xk p f s ap ax bs"
    from feas f r have le: "ax \<le> bs"
      by blast
    show "ax + alpha * ap \<le> bs"
    proof (cases "0 < ap")
      case True
      have "alpha \<le> (bs - ax) / ap"
        using computeStepSize_bound [OF run f r True] by simp
      then have "alpha * ap \<le> bs - ax"
        using True by (simp add: pos_le_divide_eq)
      then show ?thesis by simp
    next
      case False
      then have "alpha * ap \<le> 0"
        using nonneg by (simp add: mult_nonneg_nonpos)
      with le show ?thesis by simp
    qed
  qed
next
  assume run: "computeStepSize solver wg xk p = Inr (alpha, fi, si)"
  have att: "attained (constraintIndices solver) wg xk p (alpha, fi, si)"
    by (rule computeStepSize_attained [OF run])
  show "\<forall>beta. alpha < beta \<and> alpha < 1 \<longrightarrow>
            (\<exists>f \<in> set (constraintIndices solver). \<exists>s ap ax bs.
               inactiveRow wg xk p f s ap ax bs \<and> bs < ax + beta * ap)"
  proof (intro allI impI)
    fix beta
    assume b: "alpha < beta \<and> alpha < 1"
    with att obtain f s ap ax bs where f: "f \<in> set (constraintIndices solver)"
      and r: "inactiveRow wg xk p f s ap ax bs" and pos: "0 < ap" and a: "alpha = (bs - ax) / ap"
      unfolding attained_def by auto
    from b have "(bs - ax) / ap < beta"
      by (simp add: a)
    then have "bs - ax < beta * ap"
      using pos by (simp add: pos_divide_less_eq)
    then have "bs < ax + beta * ap"
      by simp
    with f r show "\<exists>f \<in> set (constraintIndices solver). \<exists>s ap ax bs.
               inactiveRow wg xk p f s ap ax bs \<and> bs < ax + beta * ap"
      by blast
  qed
qed

text \<open>The small problem with \<open>x_k = 3\<close> and \<open>p = 4\<close>: the step is \<open>1/2\<close>, the row is blocking.\<close>

text \<open>
  The small problem with \<open>x_k = 3\<close> and \<open>p = 4\<close>: the step is \<open>1/2\<close>, the row is blocking.
  A factor with the two inactive rows \<open>x \<le> 5\<close> and \<open>2 x \<le> 10\<close>: both candidates are \<open>1/2\<close>,
  and the row reported is the first one, row \<open>0\<close>.
\<close>

theorem computeStepSize_minimum_witness:
  "(\<exists>r. computeStepSize ex_solver (view ex_store ex_graph) ex_x3 ex_p4 = Inr r) \<and>
   (1 / 2 :: real) \<le> 1 \<and>
   attained (constraintIndices ex_solver) (view ex_store ex_graph) ex_x3 ex_p4 (1 / 2, 1, 0) \<and>
   (0 :: real) \<le> 1 / 2 \<and>
   (3 :: real) + 1 / 2 * 4 \<le> 5 \<and>
   computeStepSize ex_tie_solver [Some (Jacobian ex_tie)] ex_x3 ex_p4 = Inr (1 / 2, 0, 0) \<and>
   stepCandidate [Some (Jacobian ex_tie)] ex_x3 ex_p4 0 1 (1 / 2) \<and>
   (\<exists>f \<in> set (constraintIndices ex_tie_solver). \<exists>s.
      stepCandidate [Some (Jacobian ex_tie)] ex_x3 ex_p4 f s (1 / 2) \<and>
      (0 :: int) = int_of_size_t f \<and> (0 :: int) = int_of_size_t s \<and>
      (\<forall>f' \<in> set (constraintIndices ex_tie_solver). \<forall>s' c'.
         stepCandidate [Some (Jacobian ex_tie)] ex_x3 ex_p4 f' s' c' \<longrightarrow>
           1 / 2 \<le> c' \<and> ((f' < f \<or> f' = f \<and> s' < s) \<longrightarrow> 1 / 2 < c')))"
proof -
  let ?G = "view ex_store ex_graph"
  let ?T = "[Some (Jacobian ex_tie)]"
  note inst = computeStepSize_minimum [of ex_solver ?G ex_x3 ex_p4 "1 / 2" 1 0]
  note tie = computeStepSize_minimum [of ex_tie_solver ?T ex_x3 ex_p4 "1 / 2" 0 0]
  have wf: "stepsize_wf ex_solver ?G ex_x3 ex_p4"
    by (simp add: stepsize_wf_def rowsReadable_def ex_defs step_defs)
  have run: "computeStepSize ex_solver ?G ex_x3 ex_p4 = Inr (1 / 2, 1, 0)"
    by (simp add: ex_defs step_defs)
  have row: "inactiveRow ?G ex_x3 ex_p4 1 0 4 3 5"
    by (simp add: inactiveRow_def ex_defs step_defs)
  have feas: "\<forall>f \<in> set (constraintIndices ex_solver). \<forall>s ap ax bs.
      inactiveRow ?G ex_x3 ex_p4 f s ap ax bs \<longrightarrow> ax \<le> bs"
    by (simp add: inactiveRow_def ex_defs step_defs)
  have f: "1 \<in> set (constraintIndices ex_solver)"
    by (simp add: ex_defs)
  have trun: "computeStepSize ex_tie_solver ?T ex_x3 ex_p4 = Inr (1 / 2, 0, 0)"
    by (simp add: ex_defs step_defs upt_rec)
  have tsorted: "sorted_wrt (<) (constraintIndices ex_tie_solver)"
    by (simp add: ex_defs)
  have second: "stepCandidate ?T ex_x3 ex_p4 0 1 (1 / 2)"
    by (simp add: stepCandidate_def inactiveRow_def ex_defs step_defs)
  from inst wf have total: "\<exists>r. computeStepSize ex_solver ?G ex_x3 ex_p4 = Inr r"
    by blast
  from inst run have le: "(1 / 2 :: real) \<le> 1"
    and att: "attained (constraintIndices ex_solver) ?G ex_x3 ex_p4 (1 / 2, 1, 0)"
    by blast+
  from inst run feas have nonneg: "(0 :: real) \<le> 1 / 2"
    and keep: "\<forall>f \<in> set (constraintIndices ex_solver). \<forall>s ap ax bs.
      inactiveRow ?G ex_x3 ex_p4 f s ap ax bs \<longrightarrow> ax + 1 / 2 * ap \<le> bs"
    by blast+
  from keep f row have step: "(3 :: real) + 1 / 2 * 4 \<le> 5"
    by blast
  from tie trun tsorted have "(1 / 2 :: real) = 1 \<and> (0 :: int) = - 1 \<and> (0 :: int) = - 1 \<or>
    (1 / 2 :: real) < 1 \<and>
    (\<exists>f \<in> set (constraintIndices ex_tie_solver). \<exists>s.
       stepCandidate ?T ex_x3 ex_p4 f s (1 / 2) \<and>
       (0 :: int) = int_of_size_t f \<and> (0 :: int) = int_of_size_t s \<and>
       (\<forall>f' \<in> set (constraintIndices ex_tie_solver). \<forall>s' c'.
          stepCandidate ?T ex_x3 ex_p4 f' s' c' \<longrightarrow>
            1 / 2 \<le> c' \<and> ((f' < f \<or> f' = f \<and> s' < s) \<longrightarrow> 1 / 2 < c')))"
    by blast
  then have first: "\<exists>f \<in> set (constraintIndices ex_tie_solver). \<exists>s.
      stepCandidate ?T ex_x3 ex_p4 f s (1 / 2) \<and>
      (0 :: int) = int_of_size_t f \<and> (0 :: int) = int_of_size_t s \<and>
      (\<forall>f' \<in> set (constraintIndices ex_tie_solver). \<forall>s' c'.
         stepCandidate ?T ex_x3 ex_p4 f' s' c' \<longrightarrow>
           1 / 2 \<le> c' \<and> ((f' < f \<or> f' = f \<and> s' < s) \<longrightarrow> 1 / 2 < c'))"
    by simp
  from total le att nonneg step trun second first show ?thesis
    by blast
qed

text \<open>
  Claim C3 as stated fails for a current point outside the feasible region: with
  \<open>x_k = 7\<close> and \<open>p = 1\<close> the step is \<open>-2\<close>, outside \<open>[0, 1]\<close>.
\<close>

theorem computeStepSize_minimum_counterexample:
  "computeStepSize ex_solver (view ex_store ex_graph) ex_x7 ex_p1 = Inr (- 2, 1, 0) \<and>
   \<not> (0 :: real) \<le> - 2"
  by (simp add: ex_defs step_defs)

section \<open>Worst-violation selection\<close>

text \<open>
  Claim C4. \<open>findWorstViolatedActiveIneq\<close> returns a result whenever every constraint
  index leads to a row factor with a model in the original graph and to a multiplier
  vector that is long enough. It reads the original graph only: stores that agree on
  the original graph give the same result, whatever the working copy holds. With the
  constraint indices in increasing order, as the constructor collects them: if no row of
  a constraint factor with a negative original scale has a multiplier above \<open>0\<close>, the
  result is the pair \<open>(-1, -1)\<close>; otherwise it is the pair of indices, converted to
  \<^verbatim>\<open>int\<close>, of such a row whose multiplier is positive, at least every other such
  multiplier, and strictly above the multiplier of every such row that comes before it
  in the order of factor index and row index.
\<close>

theorem findWorstViolatedActiveIneq_spec:
  "(worst_wf solver h lambdas \<longrightarrow> (\<exists>r. findWorstViolatedActiveIneq solver h lambdas = Inr r)) \<and>
   (sorted_wrt (<) (constraintIndices solver) \<and>
    findWorstViolatedActiveIneq solver h lambdas = Inr (fi, si) \<longrightarrow>
      ((\<forall>f \<in> set (constraintIndices solver). \<forall>j l.
          ineqRow (view h (graph0 solver)) lambdas f j l \<longrightarrow> l \<le> 0) \<longrightarrow> fi = - 1 \<and> si = - 1) \<and>
      ((\<exists>f \<in> set (constraintIndices solver). \<exists>j l.
          ineqRow (view h (graph0 solver)) lambdas f j l \<and> 0 < l) \<longrightarrow>
         (\<exists>f \<in> set (constraintIndices solver). \<exists>j l.
            ineqRow (view h (graph0 solver)) lambdas f j l \<and> 0 < l \<and>
            fi = int_of_size_t f \<and> si = int_of_size_t j \<and>
            (\<forall>f' \<in> set (constraintIndices solver). \<forall>j' l'.
               ineqRow (view h (graph0 solver)) lambdas f' j' l' \<longrightarrow>
                 l' \<le> l \<and> ((f' < f \<or> f' = f \<and> j' < j) \<longrightarrow> l' < l))))) \<and>
   (view h' (graph0 solver) = view h (graph0 solver) \<longrightarrow>
      findWorstViolatedActiveIneq solver h' lambdas = findWorstViolatedActiveIneq solver h lambdas)"
proof (intro conjI impI)
  assume "worst_wf solver h lambdas"
  then show "\<exists>r. findWorstViolatedActiveIneq solver h lambdas = Inr r"
    by (rule findWorst_total)
next
  assume "view h' (graph0 solver) = view h (graph0 solver)"
  then show "findWorstViolatedActiveIneq solver h' lambdas = findWorstViolatedActiveIneq solver h lambdas"
    by (simp add: findWorstViolatedActiveIneq_def)
next
  let ?g = "view h (graph0 solver)"
  let ?D = "set (constraintIndices solver) \<times> (UNIV :: nat set)"
  assume a: "sorted_wrt (<) (constraintIndices solver) \<and>
    findWorstViolatedActiveIneq solver h lambdas = Inr (fi, si)"
    and none: "\<forall>f \<in> set (constraintIndices solver). \<forall>j l. ineqRow ?g lambdas f j l \<longrightarrow> l \<le> 0"
  from a obtain ml where inv: "worstInv ?g lambdas ?D (fi, si, ml)"
    using findWorst_inv by blast
  show "fi = - 1"
  proof (rule ccontr)
    assume "fi \<noteq> - 1"
    with inv obtain f j where "0 < ml" "(f, j) \<in> ?D" "ineqRow ?g lambdas f j ml"
      unfolding worstInv_def by auto
    with none show False
      by fastforce
  qed
  show "si = - 1"
  proof (rule ccontr)
    assume "si \<noteq> - 1"
    with inv obtain f j where "0 < ml" "(f, j) \<in> ?D" "ineqRow ?g lambdas f j ml"
      unfolding worstInv_def by auto
    with none show False
      by fastforce
  qed
next
  let ?g = "view h (graph0 solver)"
  let ?D = "set (constraintIndices solver) \<times> (UNIV :: nat set)"
  assume a: "sorted_wrt (<) (constraintIndices solver) \<and>
    findWorstViolatedActiveIneq solver h lambdas = Inr (fi, si)"
    and some: "\<exists>f \<in> set (constraintIndices solver). \<exists>j l. ineqRow ?g lambdas f j l \<and> 0 < l"
  from a obtain ml where inv: "worstInv ?g lambdas ?D (fi, si, ml)"
    using findWorst_inv by blast
  from inv have bound: "\<And>f j l. (f, j) \<in> ?D \<Longrightarrow> ineqRow ?g lambdas f j l \<Longrightarrow> l \<le> ml"
    unfolding worstInv_def by auto
  from some obtain f1 j1 l1 where "f1 \<in> set (constraintIndices solver)"
    "ineqRow ?g lambdas f1 j1 l1" "0 < l1"
    by blast
  with bound [of f1 j1 l1] have pos: "0 < ml"
    by simp
  with inv obtain f j where fj: "(f, j) \<in> ?D" and row: "ineqRow ?g lambdas f j ml"
    and fi: "fi = int_of_size_t f" and si: "si = int_of_size_t j"
    and first: "\<forall>f' j' l'. (f', j') \<in> ?D \<and> ineqRow ?g lambdas f' j' l' \<and>
             (f' < f \<or> f' = f \<and> j' < j) \<longrightarrow> l' < ml"
    unfolding worstInv_def by auto
  have all: "\<forall>f' \<in> set (constraintIndices solver). \<forall>j' l'.
               ineqRow ?g lambdas f' j' l' \<longrightarrow>
                 l' \<le> ml \<and> ((f' < f \<or> f' = f \<and> j' < j) \<longrightarrow> l' < ml)"
  proof (intro ballI allI impI conjI)
    fix f' j' l'
    assume f': "f' \<in> set (constraintIndices solver)" and r: "ineqRow ?g lambdas f' j' l'"
    show "l' \<le> ml"
      using bound [of f' j' l'] f' r by simp
    assume "f' < f \<or> f' = f \<and> j' < j"
    with first f' r show "l' < ml"
      by simp
  qed
  from fj have "f \<in> set (constraintIndices solver)"
    by simp
  with row pos fi si all
  show "\<exists>f \<in> set (constraintIndices solver). \<exists>j l.
            ineqRow ?g lambdas f j l \<and> 0 < l \<and>
            fi = int_of_size_t f \<and> si = int_of_size_t j \<and>
            (\<forall>f' \<in> set (constraintIndices solver). \<forall>j' l'.
               ineqRow ?g lambdas f' j' l' \<longrightarrow>
                 l' \<le> l \<and> ((f' < f \<or> f' = f \<and> j' < j) \<longrightarrow> l' < l))"
    by blast
qed

text \<open>
  In the small problem the multiplier \<open>2\<close> selects row \<open>0\<close> of factor \<open>1\<close>, the multiplier
  \<open>-3\<close> selects nothing.
\<close>

theorem findWorstViolatedActiveIneq_spec_witness:
  "(\<exists>r. findWorstViolatedActiveIneq ex_solver ex_store ex_lambda_pos = Inr r) \<and>
   (\<exists>f \<in> set (constraintIndices ex_solver). \<exists>j l.
      ineqRow (view ex_store (graph0 ex_solver)) ex_lambda_pos f j l \<and> 0 < l \<and>
      (1 :: int) = int_of_size_t f \<and> (0 :: int) = int_of_size_t j \<and>
      (\<forall>f' \<in> set (constraintIndices ex_solver). \<forall>j' l'.
         ineqRow (view ex_store (graph0 ex_solver)) ex_lambda_pos f' j' l' \<longrightarrow>
           l' \<le> l \<and> ((f' < f \<or> f' = f \<and> j' < j) \<longrightarrow> l' < l))) \<and>
   findWorstViolatedActiveIneq ex_solver ex_store ex_lambda_neg = Inr (- 1, - 1)"
proof -
  note inst = findWorstViolatedActiveIneq_spec [of ex_solver ex_store ex_lambda_pos 1 0 ex_store]
  have wf: "worst_wf ex_solver ex_store ex_lambda_pos"
    by (simp add: worst_wf_def ex_defs worst_defs)
  have sorted: "sorted_wrt (<) (constraintIndices ex_solver)"
    by (simp add: ex_defs)
  have run: "findWorstViolatedActiveIneq ex_solver ex_store ex_lambda_pos = Inr (1, 0)"
    by (simp add: ex_defs worst_defs)
  have some: "\<exists>f \<in> set (constraintIndices ex_solver). \<exists>j l.
      ineqRow (view ex_store (graph0 ex_solver)) ex_lambda_pos f j l \<and> 0 < l"
    by (simp add: ineqRow_def ex_defs worst_defs)
  from inst wf have total: "\<exists>r. findWorstViolatedActiveIneq ex_solver ex_store ex_lambda_pos = Inr r"
    by blast
  from inst sorted run some have found: "\<exists>f \<in> set (constraintIndices ex_solver). \<exists>j l.
      ineqRow (view ex_store (graph0 ex_solver)) ex_lambda_pos f j l \<and> 0 < l \<and>
      (1 :: int) = int_of_size_t f \<and> (0 :: int) = int_of_size_t j \<and>
      (\<forall>f' \<in> set (constraintIndices ex_solver). \<forall>j' l'.
         ineqRow (view ex_store (graph0 ex_solver)) ex_lambda_pos f' j' l' \<longrightarrow>
           l' \<le> l \<and> ((f' < f \<or> f' = f \<and> j' < j) \<longrightarrow> l' < l))"
    by blast
  have none: "\<forall>f \<in> set (constraintIndices ex_solver). \<forall>j l.
      ineqRow (view ex_store (graph0 ex_solver)) ex_lambda_neg f j l \<longrightarrow> l \<le> 0"
    by (simp add: ineqRow_def ex_defs worst_defs)
  obtain fi si where run': "findWorstViolatedActiveIneq ex_solver ex_store ex_lambda_neg = Inr (fi, si)"
    by (simp add: ex_defs worst_defs)
  from findWorstViolatedActiveIneq_spec [of ex_solver ex_store ex_lambda_neg fi si ex_store]
    sorted run' none
  have "fi = - 1 \<and> si = - 1"
    by blast
  with run' have sentinel: "findWorstViolatedActiveIneq ex_solver ex_store ex_lambda_neg = Inr (- 1, - 1)"
    by simp
  from total found sentinel show ?thesis
    by blast
qed

section \<open>One iteration of the driver\<close>

text \<open>
  Claim C1. Let the solve of the working sub-problem give \<open>xstar\<close>. Whenever
  \<open>iterateInPlace\<close> returns, it returns true exactly when \<open>xstar\<close> equals the current
  solution within the tolerance \<open>1e-5\<close> and the worst-violation selection on the
  multipliers of the dual graph built at \<open>xstar\<close> reports no row (a negative index).
  In the equal case: when the selection reports no row the result is true, with the store
  and the current solution as they were; when it reports a row of a row factor of the
  working graph, that row's scale becomes \<open>-1\<close> and the result is false. In the
  progress case, with \<open>p = xstar - x_current\<close> and the ratio test giving \<open>alpha\<close> and a
  pair of indices: the row of that pair, if there is one, gets the scale \<open>0\<close>, the current
  solution becomes \<open>x_current + alpha \<cdot> p\<close>, and the result is false.
\<close>

theorem iterateInPlace_spec:
  "optimize_graph ext (view h wg) = Inr xstar \<longrightarrow>
   (\<forall>r h' c'. iterateInPlace ext solver h wg cur = Inr (r, h', c') \<longrightarrow>
      (r \<longleftrightarrow> vv_equals ext xstar cur (1 / 100000) \<and>
         (\<exists>dg lambdas fi si.
            buildDualGraph solver (view h wg) xstar useLeastSquare_default = Inr dg \<and>
            optimize_graph ext dg = Inr lambdas \<and>
            findWorstViolatedActiveIneq solver h lambdas = Inr (fi, si) \<and> (fi < 0 \<or> si < 0)))) \<and>
   (vv_equals ext xstar cur (1 / 100000) \<and>
    buildDualGraph solver (view h wg) xstar useLeastSquare_default = Inr dg \<and>
    optimize_graph ext dg = Inr lambdas \<and>
    findWorstViolatedActiveIneq solver h lambdas = Inr (fi, si) \<longrightarrow>
      (fi < 0 \<or> si < 0 \<longrightarrow> iterateInPlace ext solver h wg cur = Inr (True, h, cur)) \<and>
      (0 \<le> fi \<and> 0 \<le> si \<and> ref_at wg (nat fi) = Inr (Some a) \<and>
       load h a = Some (Jacobian jf) \<and> jmodel jf = Some m \<and> nat si < length (sigmas m) \<longrightarrow>
         iterateInPlace ext solver h wg cur =
           Inr (False, h[a := Jacobian (setModel jf ((sigmas m)[nat si := - 1]))], cur))) \<and>
   (\<not> vv_equals ext xstar cur (1 / 100000) \<and> vv_sub ext xstar cur = Inr p \<and>
    computeStepSize solver (view h wg) cur p = Inr (alpha, bf, bs) \<and>
    vv_add ext cur (vv_scale ext alpha p) = Inr cur' \<longrightarrow>
      (bf < 0 \<or> bs < 0 \<longrightarrow> iterateInPlace ext solver h wg cur = Inr (False, h, cur')) \<and>
      (0 \<le> bf \<and> 0 \<le> bs \<and> ref_at wg (nat bf) = Inr (Some b) \<and>
       load h b = Some (Jacobian jb') \<and> jmodel jb' = Some mb \<and> nat bs < length (sigmas mb) \<longrightarrow>
         iterateInPlace ext solver h wg cur =
           Inr (False, h[b := Jacobian (setModel jb' ((sigmas mb)[nat bs := 0]))], cur')))"
proof (rule impI)
  assume solve: "optimize_graph ext (view h wg) = Inr xstar"
  let ?it = "iterateInPlace ext solver h wg cur"
  let ?eq = "vv_equals ext xstar cur (1 / 100000)"
  have iff: "\<forall>r h' c'. ?it = Inr (r, h', c') \<longrightarrow>
      (r \<longleftrightarrow> ?eq \<and>
         (\<exists>dg lambdas fi si.
            buildDualGraph solver (view h wg) xstar useLeastSquare_default = Inr dg \<and>
            optimize_graph ext dg = Inr lambdas \<and>
            findWorstViolatedActiveIneq solver h lambdas = Inr (fi, si) \<and> (fi < 0 \<or> si < 0)))"
  proof (intro allI impI iffI)
    fix r h' c'
    assume run: "?it = Inr (r, h', c')" and r
    then have "?it = Inr (True, h', c')"
      by simp
    from iterate_True [OF this] solve
    show "?eq \<and> (\<exists>dg lambdas fi si.
            buildDualGraph solver (view h wg) xstar useLeastSquare_default = Inr dg \<and>
            optimize_graph ext dg = Inr lambdas \<and>
            findWorstViolatedActiveIneq solver h lambdas = Inr (fi, si) \<and> (fi < 0 \<or> si < 0))"
      by auto
  next
    fix r h' c'
    assume run: "?it = Inr (r, h', c')"
      and c: "?eq \<and> (\<exists>dg lambdas fi si.
            buildDualGraph solver (view h wg) xstar useLeastSquare_default = Inr dg \<and>
            optimize_graph ext dg = Inr lambdas \<and>
            findWorstViolatedActiveIneq solver h lambdas = Inr (fi, si) \<and> (fi < 0 \<or> si < 0))"
    then obtain dg lambdas fi si where eq: ?eq
      and dg: "buildDualGraph solver (view h wg) xstar useLeastSquare_default = Inr dg"
      and lam: "optimize_graph ext dg = Inr lambdas"
      and worst: "findWorstViolatedActiveIneq solver h lambdas = Inr (fi, si)"
      and neg: "fi < 0 \<or> si < 0"
      by blast
    have "?it = Inr (True, h, cur)"
      by (simp add: iterate_equal [OF solve eq] dg lam worst update_sentinel [OF neg])
    with run show r
      by simp
  qed
  have equal: "(fi < 0 \<or> si < 0 \<longrightarrow> ?it = Inr (True, h, cur)) \<and>
      (0 \<le> fi \<and> 0 \<le> si \<and> ref_at wg (nat fi) = Inr (Some a) \<and>
       load h a = Some (Jacobian jf) \<and> jmodel jf = Some m \<and> nat si < length (sigmas m) \<longrightarrow>
         ?it = Inr (False, h[a := Jacobian (setModel jf ((sigmas m)[nat si := - 1]))], cur))"
    if eq: ?eq
      and dg: "buildDualGraph solver (view h wg) xstar useLeastSquare_default = Inr dg"
      and lam: "optimize_graph ext dg = Inr lambdas"
      and worst: "findWorstViolatedActiveIneq solver h lambdas = Inr (fi, si)"
  proof (intro conjI impI)
    assume neg: "fi < 0 \<or> si < 0"
    show "?it = Inr (True, h, cur)"
      by (simp add: iterate_equal [OF solve eq] dg lam worst update_sentinel [OF neg])
  next
    assume v: "0 \<le> fi \<and> 0 \<le> si \<and> ref_at wg (nat fi) = Inr (Some a) \<and>
       load h a = Some (Jacobian jf) \<and> jmodel jf = Some m \<and> nat si < length (sigmas m)"
    then have "updateWorkingSetInplace h wg fi si (- 1) =
        Inr (True, h[a := Jacobian (setModel jf ((sigmas m)[nat si := - 1]))])"
      by (simp add: update_valid)
    then show "?it = Inr (False, h[a := Jacobian (setModel jf ((sigmas m)[nat si := - 1]))], cur)"
      by (simp add: iterate_equal [OF solve eq] dg lam worst)
  qed
  have progress: "(bf < 0 \<or> bs < 0 \<longrightarrow> ?it = Inr (False, h, cur')) \<and>
      (0 \<le> bf \<and> 0 \<le> bs \<and> ref_at wg (nat bf) = Inr (Some b) \<and>
       load h b = Some (Jacobian jb') \<and> jmodel jb' = Some mb \<and> nat bs < length (sigmas mb) \<longrightarrow>
         ?it = Inr (False, h[b := Jacobian (setModel jb' ((sigmas mb)[nat bs := 0]))], cur'))"
    if neq: "\<not> ?eq" and p: "vv_sub ext xstar cur = Inr p"
      and step: "computeStepSize solver (view h wg) cur p = Inr (alpha, bf, bs)"
      and add: "vv_add ext cur (vv_scale ext alpha p) = Inr cur'"
  proof (intro conjI impI)
    assume neg: "bf < 0 \<or> bs < 0"
    show "?it = Inr (False, h, cur')"
      by (simp add: iterate_progress [OF solve neq] p step add update_sentinel [OF neg])
  next
    assume v: "0 \<le> bf \<and> 0 \<le> bs \<and> ref_at wg (nat bf) = Inr (Some b) \<and>
       load h b = Some (Jacobian jb') \<and> jmodel jb' = Some mb \<and> nat bs < length (sigmas mb)"
    then have "updateWorkingSetInplace h wg bf bs 0 =
        Inr (True, h[b := Jacobian (setModel jb' ((sigmas mb)[nat bs := 0]))])"
      by (simp add: update_valid)
    then show "?it = Inr (False, h[b := Jacobian (setModel jb' ((sigmas mb)[nat bs := 0]))], cur')"
      by (simp add: iterate_progress [OF solve neq] p step add)
  qed
  from iff equal progress
  show "(\<forall>r h' c'. ?it = Inr (r, h', c') \<longrightarrow>
      (r \<longleftrightarrow> ?eq \<and>
         (\<exists>dg lambdas fi si.
            buildDualGraph solver (view h wg) xstar useLeastSquare_default = Inr dg \<and>
            optimize_graph ext dg = Inr lambdas \<and>
            findWorstViolatedActiveIneq solver h lambdas = Inr (fi, si) \<and> (fi < 0 \<or> si < 0)))) \<and>
   (?eq \<and>
    buildDualGraph solver (view h wg) xstar useLeastSquare_default = Inr dg \<and>
    optimize_graph ext dg = Inr lambdas \<and>
    findWorstViolatedActiveIneq solver h lambdas = Inr (fi, si) \<longrightarrow>
      (fi < 0 \<or> si < 0 \<longrightarrow> ?it = Inr (True, h, cur)) \<and>
      (0 \<le> fi \<and> 0 \<le> si \<and> ref_at wg (nat fi) = Inr (Some a) \<and>
       load h a = Some (Jacobian jf) \<and> jmodel jf = Some m \<and> nat si < length (sigmas m) \<longrightarrow>
         ?it = Inr (False, h[a := Jacobian (setModel jf ((sigmas m)[nat si := - 1]))], cur))) \<and>
   (\<not> ?eq \<and> vv_sub ext xstar cur = Inr p \<and>
    computeStepSize solver (view h wg) cur p = Inr (alpha, bf, bs) \<and>
    vv_add ext cur (vv_scale ext alpha p) = Inr cur' \<longrightarrow>
      (bf < 0 \<or> bs < 0 \<longrightarrow> ?it = Inr (False, h, cur')) \<and>
      (0 \<le> bf \<and> 0 \<le> bs \<and> ref_at wg (nat bf) = Inr (Some b) \<and>
       load h b = Some (Jacobian jb') \<and> jmodel jb' = Some mb \<and> nat bs < length (sigmas mb) \<longrightarrow>
         ?it = Inr (False, h[b := Jacobian (setModel jb' ((sigmas mb)[nat bs := 0]))], cur')))"
    by blast
qed

text \<open>
  The small problem: from \<open>x = 3\<close> the step \<open>1/2\<close> towards \<open>7\<close> reaches \<open>5\<close> and activates
  the inequality row; from a point within the tolerance of \<open>7\<close>, with the multiplier
  \<open>0\<close> of the inactive row, the iteration converges.
\<close>

theorem iterateInPlace_spec_witness:
  "iterateInPlace ex_ext ex_solver ex_store ex_graph ex_x3 =
     Inr (False, ex_store[1 := Jacobian (setModel ex_ineq
            ((sigmas (Constrained_MixedSigmas [- 1]))[nat 0 := 0]))], ex_x5) \<and>
   iterateInPlace ex_ext ex_solver ex_store ex_graph ex_x7near = Inr (True, ex_store, ex_x7near)"
proof -
  let ?G = "view ex_store ex_graph"
  let ?m = "Constrained_MixedSigmas [- 1]"
  have solve: "optimize_graph ex_ext ?G = Inr ex_x7"
    by (simp add: ex_defs ext_defs step_defs)
  have neq: "\<not> vv_equals ex_ext ex_x7 ex_x3 (1 / 100000)"
    by (simp add: ex_defs ext_defs)
  have p: "vv_sub ex_ext ex_x7 ex_x3 = Inr ex_p4"
    by (simp add: ex_defs ext_defs)
  have step: "computeStepSize ex_solver ?G ex_x3 ex_p4 = Inr (1 / 2, 1, 0)"
    by (simp add: ex_defs step_defs)
  have add: "vv_add ex_ext ex_x3 (vv_scale ex_ext (1 / 2) ex_p4) = Inr ex_x5"
    by (simp add: ex_defs ext_defs)
  have valid: "0 \<le> (1 :: int) \<and> 0 \<le> (0 :: int) \<and> ref_at ex_graph (nat 1) = Inr (Some 1) \<and>
       load ex_store 1 = Some (Jacobian ex_ineq) \<and> jmodel ex_ineq = Some ?m \<and>
       nat 0 < length (sigmas ?m)"
    by (simp add: ex_defs step_defs update_defs)
  have eq: "vv_equals ex_ext ex_x7 ex_x7near (1 / 100000)"
    by (simp add: ex_defs ext_defs)
  have dg: "buildDualGraph ex_solver ?G ex_x7 useLeastSquare_default =
     Inr [Some (Jacobian \<lparr>jkeys = [1], jA = [[[0]]], jb = [0], jmodel = Some (Constrained_All 1)\<rparr>),
          Some (Jacobian \<lparr>jkeys = [1], jA = [[[1]]], jb = [0], jmodel = None\<rparr>)]"
    by (simp add: ex_defs dual_defs step_defs)
  have lam: "optimize_graph ex_ext
     [Some (Jacobian \<lparr>jkeys = [1], jA = [[[0]]], jb = [0], jmodel = Some (Constrained_All 1)\<rparr>),
      Some (Jacobian \<lparr>jkeys = [1], jA = [[[1]]], jb = [0], jmodel = None\<rparr>)] = Inr [1 \<mapsto> [0]]"
    by (simp add: ext_defs)
  have worst: "findWorstViolatedActiveIneq ex_solver ex_store [1 \<mapsto> [0]] = Inr (- 1, - 1)"
    by (simp add: ex_defs worst_defs)
  have neg: "(- 1 :: int) < 0 \<or> (- 1 :: int) < 0"
    by simp
  from iterateInPlace_spec [of ex_ext ex_store ex_graph ex_x7 ex_solver ex_x3 _ _ _ _ _ _ _
      ex_p4 "1 / 2" 1 0 ex_x5 1 ex_ineq ?m]
    solve neq p step add valid
  have first: "iterateInPlace ex_ext ex_solver ex_store ex_graph ex_x3 =
     Inr (False, ex_store[1 := Jacobian (setModel ex_ineq ((sigmas ?m)[nat 0 := 0]))], ex_x5)"
    by blast
  from iterateInPlace_spec [of ex_ext ex_store ex_graph ex_x7 ex_solver ex_x7near _ "[1 \<mapsto> [0]]"
      "- 1" "- 1"] solve eq dg lam worst neg
  have second: "iterateInPlace ex_ext ex_solver ex_store ex_graph ex_x7near =
     Inr (True, ex_store, ex_x7near)"
    by blast
  from first second show ?thesis
    by (rule conjI)
qed

text \<open>
  Claim C10. When \<open>iterateInPlace\<close> returns true, the store, and so the working graph,
  and the current solution are the ones it was given: the working-set update on that
  path is the rejected call on a negative index, which returns the store as it is, and
  the solution \<open>xstar\<close> of the sub-problem, equal to the current solution within the
  tolerance only, does not replace it.
\<close>

theorem iterateInPlace_converged_frame:
  "iterateInPlace ext solver h wg cur = Inr (True, h', cur') \<longrightarrow>
     h' = h \<and> cur' = cur \<and> view h' wg = view h wg \<and>
     (\<exists>xstar dg lambdas fi si. optimize_graph ext (view h wg) = Inr xstar \<and>
        vv_equals ext xstar cur (1 / 100000) \<and>
        buildDualGraph solver (view h wg) xstar useLeastSquare_default = Inr dg \<and>
        optimize_graph ext dg = Inr lambdas \<and>
        findWorstViolatedActiveIneq solver h lambdas = Inr (fi, si) \<and> (fi < 0 \<or> si < 0) \<and>
        updateWorkingSetInplace h wg fi si (- 1) = Inr (False, h))"
proof
  assume "iterateInPlace ext solver h wg cur = Inr (True, h', cur')"
  from iterate_True [OF this] show "h' = h \<and> cur' = cur \<and> view h' wg = view h wg \<and>
     (\<exists>xstar dg lambdas fi si. optimize_graph ext (view h wg) = Inr xstar \<and>
        vv_equals ext xstar cur (1 / 100000) \<and>
        buildDualGraph solver (view h wg) xstar useLeastSquare_default = Inr dg \<and>
        optimize_graph ext dg = Inr lambdas \<and>
        findWorstViolatedActiveIneq solver h lambdas = Inr (fi, si) \<and> (fi < 0 \<or> si < 0) \<and>
        updateWorkingSetInplace h wg fi si (- 1) = Inr (False, h))"
    by simp
qed

text \<open>
  In the small problem the current solution \<open>7 - 1e-6\<close> is kept, although the solve gave \<open>7\<close>.
\<close>

theorem iterateInPlace_converged_frame_witness:
  "iterateInPlace ex_ext ex_solver ex_store ex_graph ex_x7near = Inr (True, ex_store, ex_x7near) \<and>
   optimize_graph ex_ext (view ex_store ex_graph) = Inr ex_x7 \<and>
   ex_x7 0 \<noteq> ex_x7near 0 \<and>
   view ex_store ex_graph = view ex_store ex_graph \<and>
   (\<exists>xstar dg lambdas fi si. optimize_graph ex_ext (view ex_store ex_graph) = Inr xstar \<and>
        vv_equals ex_ext xstar ex_x7near (1 / 100000) \<and>
        buildDualGraph ex_solver (view ex_store ex_graph) xstar useLeastSquare_default = Inr dg \<and>
        optimize_graph ex_ext dg = Inr lambdas \<and>
        findWorstViolatedActiveIneq ex_solver ex_store lambdas = Inr (fi, si) \<and> (fi < 0 \<or> si < 0) \<and>
        updateWorkingSetInplace ex_store ex_graph fi si (- 1) = Inr (False, ex_store))"
proof -
  have run: "iterateInPlace ex_ext ex_solver ex_store ex_graph ex_x7near =
      Inr (True, ex_store, ex_x7near)"
    by (simp add: iterateInPlace_def ex_defs ext_defs dual_defs worst_defs step_defs update_defs)
  have solve: "optimize_graph ex_ext (view ex_store ex_graph) = Inr ex_x7"
    by (simp add: ex_defs ext_defs step_defs)
  have differ: "ex_x7 0 \<noteq> ex_x7near 0"
    by (simp add: ex_defs)
  from iterateInPlace_converged_frame
    [of ex_ext ex_solver ex_store ex_graph ex_x7near ex_store ex_x7near] run
  have "view ex_store ex_graph = view ex_store ex_graph \<and>
   (\<exists>xstar dg lambdas fi si. optimize_graph ex_ext (view ex_store ex_graph) = Inr xstar \<and>
        vv_equals ex_ext xstar ex_x7near (1 / 100000) \<and>
        buildDualGraph ex_solver (view ex_store ex_graph) xstar useLeastSquare_default = Inr dg \<and>
        optimize_graph ex_ext dg = Inr lambdas \<and>
        findWorstViolatedActiveIneq ex_solver ex_store lambdas = Inr (fi, si) \<and> (fi < 0 \<or> si < 0) \<and>
        updateWorkingSetInplace ex_store ex_graph fi si (- 1) = Inr (False, ex_store))"
    by blast
  with run solve differ show ?thesis
    by blast
qed

section \<open>The original graph is not mutated\<close>

text \<open>
  Claim C8. \<open>optimize\<close> copies the original graph once: the store after the copy is the
  store before it followed by the copies, the working graph points to the copies only and
  is equal, factor by factor, to the original graph. In every state the loop goes
  through, after any number of iterations, the store has the size it had after the copy
  and every factor object that existed before the call is unchanged; so the original
  graph, whose pointers are addresses of such objects, reads as before, and so does
  every scale read from it. The store a call of \<open>optimize\<close> returns is such a state.
\<close>

theorem optimize_frame:
  "clone h (graph0 solver) = (h1, wg) \<longrightarrow>
     (\<exists>copies. h1 = h @ copies) \<and> view h1 wg = view h (graph0 solver) \<and>
     (\<forall>a. Some a \<in> set wg \<longrightarrow> length h \<le> a \<and> a < length h1) \<and>
     (\<forall>h' c'. iterates ext solver wg (h1, initials) (h', c') \<longrightarrow>
        length h' = length h1 \<and> take (length h) h' = h \<and>
        ((\<forall>a. Some a \<in> set (graph0 solver) \<longrightarrow> a < length h) \<longrightarrow>
           view h' (graph0 solver) = view h (graph0 solver))) \<and>
     (\<forall>n h' x. optimize n ext solver h initials = Some (Inr (h', x)) \<longrightarrow>
        iterates ext solver wg (h1, initials) (h', x))"
proof (rule impI)
  assume cl: "clone h (graph0 solver) = (h1, wg)"
  then have "cloneFrom h h (graph0 solver) = (h1, wg)"
    by (simp add: clone_def)
  from cloneFrom_props [OF this] obtain copies where h1: "h1 = h @ copies"
    and fresh: "\<forall>a. Some a \<in> set wg \<longrightarrow> length h \<le> a \<and> a < length h1"
    and v: "view h1 wg = view h (graph0 solver)"
    by blast
  have frame: "length h' = length h1 \<and> take (length h) h' = h \<and>
        ((\<forall>a. Some a \<in> set (graph0 solver) \<longrightarrow> a < length h) \<longrightarrow>
           view h' (graph0 solver) = view h (graph0 solver))"
    if it: "iterates ext solver wg (h1, initials) (h', c')" for h' c'
  proof -
    from iterates_frame [OF it] have len: "length h' = length h1"
      and same: "\<forall>a. Some a \<notin> set wg \<longrightarrow> h' ! a = h1 ! a"
      by simp_all
    have old: "h' ! a = h ! a" if "a < length h" for a
    proof -
      from that fresh have "Some a \<notin> set wg"
        by auto
      with same have "h' ! a = h1 ! a"
        by blast
      with that show ?thesis
        by (simp add: h1 nth_append)
    qed
    have le: "length h \<le> length h'"
      by (simp add: len h1)
    have tk: "take (length h) h' = h"
    proof (rule nth_equalityI)
      show "length (take (length h) h') = length h"
        using le by simp
    next
      fix i
      assume "i < length (take (length h) h')"
      then have "i < length h"
        by simp
      then show "take (length h) h' ! i = h ! i"
        by (simp add: old)
    qed
    have ld: "load h' a = load h a" if "a < length h" for a
      using that le old [OF that] by (simp add: load_def)
    have "view h' (graph0 solver) = view h (graph0 solver)"
      if ok: "\<forall>a. Some a \<in> set (graph0 solver) \<longrightarrow> a < length h"
      unfolding view_def
    proof (rule map_cong [OF refl])
      fix p
      assume "p \<in> set (graph0 solver)"
      with ok ld show "(case p of None \<Rightarrow> None | Some a \<Rightarrow> load h' a) =
          (case p of None \<Rightarrow> None | Some a \<Rightarrow> load h a)"
        by (cases p) auto
    qed
    with len tk show ?thesis
      by blast
  qed
  have opt: "iterates ext solver wg (h1, initials) (h', x)"
    if "optimize n ext solver h initials = Some (Inr (h', x))" for n h' x
  proof -
    from that cl have "optimize_loop n ext solver h1 wg initials = Some (Inr (h', x))"
      by (simp add: optimize_def)
    then show ?thesis
      by (rule optimize_loop_iterates)
  qed
  from h1 v fresh frame opt
  show "(\<exists>copies. h1 = h @ copies) \<and> view h1 wg = view h (graph0 solver) \<and>
     (\<forall>a. Some a \<in> set wg \<longrightarrow> length h \<le> a \<and> a < length h1) \<and>
     (\<forall>h' c'. iterates ext solver wg (h1, initials) (h', c') \<longrightarrow>
        length h' = length h1 \<and> take (length h) h' = h \<and>
        ((\<forall>a. Some a \<in> set (graph0 solver) \<longrightarrow> a < length h) \<longrightarrow>
           view h' (graph0 solver) = view h (graph0 solver))) \<and>
     (\<forall>n h' x. optimize n ext solver h initials = Some (Inr (h', x)) \<longrightarrow>
        iterates ext solver wg (h1, initials) (h', x))"
    by blast
qed

text \<open>
  The small problem: two iterations end at \<open>x = 5\<close> with the copy of the inequality row
  active, at address \<open>3\<close>; the factors at the addresses \<open>0\<close> and \<open>1\<close> are as before.
\<close>

theorem optimize_frame_witness:
  "optimize 2 ex_ext ex_solver ex_store ex_x3 =
     Some (Inr (ex_store @ [Jacobian ex_cost, Jacobian (setModel ex_ineq [0])], ex_x5)) \<and>
   length (ex_store @ [Jacobian ex_cost, Jacobian (setModel ex_ineq [0])]) =
     length (ex_store @ [Jacobian ex_cost, Jacobian ex_ineq]) \<and>
   take (length ex_store) (ex_store @ [Jacobian ex_cost, Jacobian (setModel ex_ineq [0])]) = ex_store \<and>
   view (ex_store @ [Jacobian ex_cost, Jacobian (setModel ex_ineq [0])]) (graph0 ex_solver) =
     view ex_store (graph0 ex_solver)"
proof -
  let ?h1 = "ex_store @ [Jacobian ex_cost, Jacobian ex_ineq]"
  let ?h' = "ex_store @ [Jacobian ex_cost, Jacobian (setModel ex_ineq [0])]"
  note inst = optimize_frame [of ex_store ex_solver ?h1 "[Some 2, Some 3]" ex_ext ex_x3]
  have cl: "clone ex_store (graph0 ex_solver) = (?h1, [Some 2, Some 3])"
    by (simp add: clone_def ex_defs load_def)
  have run: "optimize 2 ex_ext ex_solver ex_store ex_x3 = Some (Inr (?h', ex_x5))"
    by (simp add: optimize_def clone_def numeral_2_eq_2 iterateInPlace_def
        ex_defs ext_defs dual_defs worst_defs step_defs update_defs)
  have ok: "\<forall>a. Some a \<in> set (graph0 ex_solver) \<longrightarrow> a < length ex_store"
    by (simp add: ex_defs)
  from inst cl run have it: "iterates ex_ext ex_solver [Some 2, Some 3] (?h1, ex_x3) (?h', ex_x5)"
    by blast
  from inst cl it ok have "length ?h' = length ?h1 \<and> take (length ex_store) ?h' = ex_store \<and>
      view ?h' (graph0 ex_solver) = view ex_store (graph0 ex_solver)"
    by blast
  with run show ?thesis
    by (rule conjI)
qed

section \<open>The cost-subgraph aggregator\<close>

text \<open>
  Claim C6, as the code has it. For a row factor with a constrained noise model, the
  aggregator draws the line at the scale \<open>1e-9\<close>. When at least one row has a scale above
  \<open>1e-9\<close>, it appends to the cost subgraph the quadratic factor of the row factor with a
  diagonal model given by precisions: the precision \<open>0\<close> for every row whose scale is at
  most \<open>1e-9\<close> (every equality and inequality row), a positive precision for every row
  whose scale is above \<open>1e-9\<close>. When no row has a scale above \<open>1e-9\<close>, the factor
  contributes nothing.
\<close>

theorem hessianStep_mixed:
  "graph_idx graph factorIndex = Inr (Some (Jacobian jf)) \<and> jmodel jf = Some m \<and> isConstrained m \<longrightarrow>
     ((\<exists>x \<in> set (sigmas m). 1 / 1000000000 < x) \<longrightarrow>
        (\<exists>np. hessianStep ext graph factorIndex hfg =
                Inr (hfg @ [hessianOf ext (jf\<lparr>jmodel := Some (Diagonal_Precisions np)\<rparr>)]) \<and>
              length np = length (sigmas m) \<and>
              (\<forall>s < length (sigmas m).
                 (sigmas m ! s \<le> 1 / 1000000000 \<longrightarrow> np ! s = 0) \<and>
                 (1 / 1000000000 < sigmas m ! s \<longrightarrow> 0 < np ! s)))) \<and>
     ((\<forall>x \<in> set (sigmas m). x \<le> 1 / 1000000000) \<longrightarrow>
        hessianStep ext graph factorIndex hfg = Inr hfg)"
proof (intro impI conjI)
  let ?np = "map (\<lambda>x. if x \<le> 1 / 1000000000 then 0 else 1 / x) (sigmas m)"
  assume a: "graph_idx graph factorIndex = Inr (Some (Jacobian jf)) \<and> jmodel jf = Some m \<and>
    isConstrained m"
    and free: "\<exists>x \<in> set (sigmas m). 1 / 1000000000 < x"
  from a have step: "hessianStep ext graph factorIndex hfg =
     Inr (if \<exists>x \<in> set (sigmas m). 1 / 1000000000 < x
          then hfg @ [hessianOf ext (jf\<lparr>jmodel := Some (Diagonal_Precisions ?np)\<rparr>)]
          else hfg)"
    by (simp add: hessianStep_constrained)
  from free have "(\<exists>x \<in> set (sigmas m). 1 / 1000000000 < x) = True"
    by simp
  from step [unfolded this] have run: "hessianStep ext graph factorIndex hfg =
      Inr (hfg @ [hessianOf ext (jf\<lparr>jmodel := Some (Diagonal_Precisions ?np)\<rparr>)])"
    by simp
  have len: "length ?np = length (sigmas m)"
    by simp
  have rows: "\<forall>s < length (sigmas m).
      (sigmas m ! s \<le> 1 / 1000000000 \<longrightarrow> ?np ! s = 0) \<and>
      (1 / 1000000000 < sigmas m ! s \<longrightarrow> 0 < ?np ! s)"
  proof (intro allI impI conjI)
    fix s
    assume s: "s < length (sigmas m)"
    {
      assume "sigmas m ! s \<le> 1 / 1000000000"
      with s show "?np ! s = 0"
        by simp
    }
    {
      assume big: "1 / 1000000000 < sigmas m ! s"
      then have "0 < sigmas m ! s"
        by simp
      with s big show "0 < ?np ! s"
        by simp
    }
  qed
  from run len rows
  show "\<exists>np. hessianStep ext graph factorIndex hfg =
                Inr (hfg @ [hessianOf ext (jf\<lparr>jmodel := Some (Diagonal_Precisions np)\<rparr>)]) \<and>
              length np = length (sigmas m) \<and>
              (\<forall>s < length (sigmas m).
                 (sigmas m ! s \<le> 1 / 1000000000 \<longrightarrow> np ! s = 0) \<and>
                 (1 / 1000000000 < sigmas m ! s \<longrightarrow> 0 < np ! s))"
    by blast
next
  assume a: "graph_idx graph factorIndex = Inr (Some (Jacobian jf)) \<and> jmodel jf = Some m \<and>
    isConstrained m"
    and none: "\<forall>x \<in> set (sigmas m). x \<le> 1 / 1000000000"
  from none have "\<not> (\<exists>x \<in> set (sigmas m). 1 / 1000000000 < x)"
    by (simp add: not_less)
  with a show "hessianStep ext graph factorIndex hfg = Inr hfg"
    by (simp add: hessianStep_constrained)
qed

text \<open>
  A factor with an equality row and a row of scale \<open>2\<close> is reduced and included; the
  inequality factor of the small problem, all of whose rows are constrained, is dropped.
\<close>

theorem hessianStep_mixed_witness:
  "(\<exists>np. hessianStep ex_ext [Some (Jacobian ex_mixed)] 0 [] =
            Inr ([] @ [hessianOf ex_ext (ex_mixed\<lparr>jmodel := Some (Diagonal_Precisions np)\<rparr>)]) \<and>
          length np = length (sigmas (Constrained_MixedSigmas [0, 2])) \<and>
          (\<forall>s < length (sigmas (Constrained_MixedSigmas [0, 2])).
             (sigmas (Constrained_MixedSigmas [0, 2]) ! s \<le> 1 / 1000000000 \<longrightarrow> np ! s = 0) \<and>
             (1 / 1000000000 < sigmas (Constrained_MixedSigmas [0, 2]) ! s \<longrightarrow> 0 < np ! s))) \<and>
   hessianStep ex_ext (view ex_store ex_graph) 1 [] = Inr []"
proof -
  have a: "graph_idx [Some (Jacobian ex_mixed)] 0 = Inr (Some (Jacobian ex_mixed)) \<and>
      jmodel ex_mixed = Some (Constrained_MixedSigmas [0, 2]) \<and>
      isConstrained (Constrained_MixedSigmas [0, 2])"
    by (simp add: graph_idx_def ex_defs)
  have free: "\<exists>x \<in> set (sigmas (Constrained_MixedSigmas [0, 2])). 1 / 1000000000 < x"
    by simp
  have b: "graph_idx (view ex_store ex_graph) 1 = Inr (Some (Jacobian ex_ineq)) \<and>
      jmodel ex_ineq = Some (Constrained_MixedSigmas [- 1]) \<and>
      isConstrained (Constrained_MixedSigmas [- 1])"
    by (simp add: graph_idx_def view_def load_def ex_defs)
  have none: "\<forall>x \<in> set (sigmas (Constrained_MixedSigmas [- 1])). x \<le> 1 / 1000000000"
    by simp
  from hessianStep_mixed [of "[Some (Jacobian ex_mixed)]" 0 ex_mixed "Constrained_MixedSigmas [0, 2]"
      ex_ext "[]"] a free
  have first: "\<exists>np. hessianStep ex_ext [Some (Jacobian ex_mixed)] 0 [] =
            Inr ([] @ [hessianOf ex_ext (ex_mixed\<lparr>jmodel := Some (Diagonal_Precisions np)\<rparr>)]) \<and>
          length np = length (sigmas (Constrained_MixedSigmas [0, 2])) \<and>
          (\<forall>s < length (sigmas (Constrained_MixedSigmas [0, 2])).
             (sigmas (Constrained_MixedSigmas [0, 2]) ! s \<le> 1 / 1000000000 \<longrightarrow> np ! s = 0) \<and>
             (1 / 1000000000 < sigmas (Constrained_MixedSigmas [0, 2]) ! s \<longrightarrow> 0 < np ! s))"
    by blast
  from hessianStep_mixed [of "view ex_store ex_graph" 1 ex_ineq "Constrained_MixedSigmas [- 1]"
      ex_ext "[]"] b none
  have second: "hessianStep ex_ext (view ex_store ex_graph) 1 [] = Inr []"
    by blast
  from first second show ?thesis
    by (rule conjI)
qed

text \<open>
  Claim C6 as stated fails for a row that is free by its role (a positive scale) and below
  the threshold: a constrained factor whose only free row has the scale \<open>1e-10\<close> is
  dropped, although one of its rows is free.
\<close>

theorem hessianStep_mixed_counterexample:
  "jmodel ex_tiny = Some (Constrained_MixedSigmas [0, 1 / 10000000000]) \<and>
   0 < sigmas (Constrained_MixedSigmas [0, 1 / 10000000000]) ! 1 \<and>
   hessianStep ex_ext [Some (Jacobian ex_tiny)] 0 [] = Inr []"
  by (simp add: ex_defs hess_defs)

text \<open>
  The precision the code gives to a free row is the reciprocal of its scale (line 73):
  \<open>1/2\<close> for the scale \<open>2\<close>. And the aggregator as a whole, on the small problem: the
  variable \<open>0\<close> is touched by both factors, the cost row is converted, the inequality
  factor is dropped.
\<close>

lemma hessianStep_free_precision:
  "hessianStep ext [Some (Jacobian ex_mixed)] 0 [] =
     Inr [hessianOf ext (ex_mixed\<lparr>jmodel := Some (Diagonal_Precisions [0, 1 / 2])\<rparr>)]"
  by (simp add: ex_defs hess_defs)

lemma ex_aggregate:
  "unconstrainedHessiansOfConstrainedVars ex_ext (view ex_store ex_graph) [0] = Inr [ex_hessian]"
  by (simp add: unconstrainedHessiansOfConstrainedVars_def collectFactors_def VariableIndex_of_def
      allKeys_def touches_def fastset_insert_def index_at_def hess_defs ex_defs ext_defs view_def load_def)

section \<open>The right-hand side of the dual graph\<close>

text \<open>
  Claim C5. Let \<open>(v, xiFactors)\<close> be an entry of the index of the cost subgraph, with at
  least one factor, and let \<open>F0\<close> be the first factor of the cost subgraph.

  When \<open>F0\<close> has the key \<open>v\<close> and the cost subgraph fits the assignment \<open>x\<close>
  (\<open>grad_wf\<close>), the gradient computation returns a vector \<open>g\<close>, of the length \<open>v\<close> has
  in \<open>F0\<close>, whose component \<open>r\<close> is the sum, over the factors \<open>F\<close> of \<open>xiFactors\<close>, of
  \<open>\<Sum>_j (G_{v,j} \<cdot> x_j)_r - linear_term(v)_r\<close>, where \<open>G_{v,j}\<close> is the stored block when \<open>v\<close>
  does not come after \<open>j\<close> in the ordering of \<open>F\<close> and the transpose of the stored block
  \<open>(j, v)\<close> when it does; and every graph that \<open>buildDualGraph\<close> returns has a factor
  whose right-hand side is \<open>g\<close>.

  When \<open>F0\<close> does not have the key \<open>v\<close>, \<open>buildDualGraph\<close> returns no graph: line 113
  reads the dimension of \<open>v\<close> in the factor at index \<open>0\<close>, where the comment of line 111
  announces the first factor on \<open>v\<close>, and the lookup is made at \<^verbatim>\<open>end()\<close>. So the claim
  holds for the variables of the first cost factor, and for no other.
\<close>

theorem buildDualGraph_gradient:
  "((v, xiFactors) \<in> set (freeHessianFactorIndex solver) \<and> xiFactors \<noteq> [] \<and>
    freeHessians solver = F0 # rest \<and> v \<in> set (hkeys F0) \<and>
    grad_wf (freeHessians solver) v xiFactors x (length (hinfo F0 (hfind F0 v) (hfind F0 v))) \<longrightarrow>
      (\<exists>g. gradf (freeHessians solver) v xiFactors x = Inr g \<and>
         length g = length (hinfo F0 (hfind F0 v) (hfind F0 v)) \<and>
         (\<forall>r < length g. g ! r = spec_gradient (freeHessians solver) v xiFactors x r) \<and>
         (\<forall>dg. buildDualGraph solver graph x ls = Inr dg \<longrightarrow>
            (\<exists>terms. Some (Jacobian \<lparr>jkeys = map fst terms, jA = map snd terms, jb = g,
                jmodel = Some (if ls then Unit_Create (length g)
                               else Constrained_All (length g))\<rparr>) \<in> set dg)))) \<and>
   ((v, xiFactors) \<in> set (freeHessianFactorIndex solver) \<and> xiFactors \<noteq> [] \<and>
    freeHessians solver = F0 # rest \<and> v \<notin> set (hkeys F0) \<longrightarrow>
      (\<exists>e. buildDualGraph solver graph x ls = Inl e))"
proof (intro conjI impI)
  let ?d = "length (hinfo F0 (hfind F0 v) (hfind F0 v))"
  assume a: "(v, xiFactors) \<in> set (freeHessianFactorIndex solver) \<and> xiFactors \<noteq> [] \<and>
    freeHessians solver = F0 # rest \<and> v \<in> set (hkeys F0) \<and>
    grad_wf (freeHessians solver) v xiFactors x ?d"
  then have mem: "(v, xiFactors) \<in> set (freeHessianFactorIndex solver)" and ne: "xiFactors \<noteq> []"
    and fh: "freeHessians solver = F0 # rest" and v: "v \<in> set (hkeys F0)"
    and wf: "grad_wf (freeHessians solver) v xiFactors x ?d"
    by blast+
  from v have "hfind F0 v < length (hkeys F0)"
    by (simp add: hfind_less)
  then have dim: "xiDimOf (freeHessians solver) v = Inr ?d"
    by (simp add: fh xiDimOf_def hess_at_def getDim_def)
  from gradf_entry [OF dim wf] obtain g where g: "gradf (freeHessians solver) v xiFactors x = Inr g"
    and lg: "length g = ?d" and eg: "\<forall>r < ?d. g ! r = spec_gradient (freeHessians solver) v xiFactors x r"
    by blast
  have out: "\<exists>terms. Some (Jacobian \<lparr>jkeys = map fst terms, jA = map snd terms, jb = g,
                jmodel = Some (if ls then Unit_Create (length g)
                               else Constrained_All (length g))\<rparr>) \<in> set dg"
    if run: "buildDualGraph solver graph x ls = Inr dg" for dg
  proof -
    from run have fold: "foldE (dualStep solver graph x ls) (freeHessianFactorIndex solver) [] = Inr dg"
      by (simp add: buildDualGraph_def)
    have "\<exists>a \<in> set dg. \<exists>terms. a = Some (Jacobian \<lparr>jkeys = map fst terms, jA = map snd terms, jb = g,
                jmodel = Some (if ls then Unit_Create (length g)
                               else Constrained_All (length g))\<rparr>)"
    proof (rule foldE_member [OF fold mem])
      fix y s s'
      assume "dualStep solver graph x ls y s = Inr s'"
      then show "set s \<subseteq> set s'"
        by (rule dualStep_extends)
    next
      fix s s'
      assume "dualStep solver graph x ls (v, xiFactors) s = Inr s'"
      from dualStep_rhs [OF ne this] g
      show "\<exists>a \<in> set s'. \<exists>terms. a = Some (Jacobian \<lparr>jkeys = map fst terms, jA = map snd terms, jb = g,
                jmodel = Some (if ls then Unit_Create (length g)
                               else Constrained_All (length g))\<rparr>)"
        by auto
    qed
    then show ?thesis
      by blast
  qed
  from g lg eg out
  show "\<exists>g. gradf (freeHessians solver) v xiFactors x = Inr g \<and>
         length g = ?d \<and>
         (\<forall>r < length g. g ! r = spec_gradient (freeHessians solver) v xiFactors x r) \<and>
         (\<forall>dg. buildDualGraph solver graph x ls = Inr dg \<longrightarrow>
            (\<exists>terms. Some (Jacobian \<lparr>jkeys = map fst terms, jA = map snd terms, jb = g,
                jmodel = Some (if ls then Unit_Create (length g)
                               else Constrained_All (length g))\<rparr>) \<in> set dg))"
    by auto
next
  assume a: "(v, xiFactors) \<in> set (freeHessianFactorIndex solver) \<and> xiFactors \<noteq> [] \<and>
    freeHessians solver = F0 # rest \<and> v \<notin> set (hkeys F0)"
  then have mem: "(v, xiFactors) \<in> set (freeHessianFactorIndex solver)" and ne: "xiFactors \<noteq> []"
    and fh: "freeHessians solver = F0 # rest" and v: "v \<notin> set (hkeys F0)"
    by blast+
  from v have "hfind F0 v = length (hkeys F0)"
    by (rule hfind_end)
  then have "xiDimOf (freeHessians solver) v = Inl EndIterator"
    by (simp add: fh xiDimOf_def hess_at_def getDim_def)
  then have "gradf (freeHessians solver) v xiFactors x = Inl EndIterator"
    by (simp add: gradf_def)
  with ne have step: "dualStep solver graph x ls (v, xiFactors) s = Inl EndIterator" for s
    by (simp add: dualStep_def)
  have "\<exists>e. foldE (dualStep solver graph x ls) (freeHessianFactorIndex solver) [] = Inl e"
    by (rule foldE_fails [OF mem]) (simp add: step)
  then show "\<exists>e. buildDualGraph solver graph x ls = Inl e"
    by (simp add: buildDualGraph_def)
qed

text \<open>
  Three inputs. The small problem at \<open>x = 5\<close>: the dual graph is the factor with
  right-hand side \<open>5 - 7 = -2\<close>, followed by the prior of the multiplier of the inactive
  row. The factor on the variables \<open>0\<close> and \<open>1\<close>, for the variable \<open>1\<close>, which comes
  second: the block \<open>(1, 0)\<close> is the transpose of the stored \<open>(0, 1)\<close>, and the gradient at
  \<open>x_0 = 1\<close>, \<open>x_1 = (1, 2)\<close> is \<open>(3 + 17 - 1, 4 + 20 - 1)\<close>. The problem with a cost
  factor on the variable \<open>0\<close>, a cost factor on the variable \<open>1\<close> and an inequality on
  both: the constructor builds the solver, the cost subgraph fits the assignment, the
  gradient for the variable \<open>1\<close> is \<open>(1, 2) - (1, 2) = (0, 0)\<close>, and \<open>buildDualGraph\<close> fails
  on the lookup of the variable \<open>1\<close> in the cost factor of the variable \<open>0\<close>.
\<close>

theorem buildDualGraph_gradient_witness:
  "buildDualGraph ex_solver (view ex_store ex_graph) ex_x5 useLeastSquare_default =
     Inr [Some (Jacobian \<lparr>jkeys = [1], jA = [[[0]]], jb = [- 2], jmodel = Some (Constrained_All 1)\<rparr>),
          Some (Jacobian \<lparr>jkeys = [1], jA = [[[1]]], jb = [0], jmodel = None\<rparr>)] \<and>
   spec_gradient (freeHessians ex_solver) 0 [0] ex_x5 0 = - 2 \<and>
   gradf (freeHessians ex_solver5) 1 [0] ex_x12 = Inr [19, 23] \<and>
   spec_gradient (freeHessians ex_solver5) 1 [0] ex_x12 0 = 19 \<and>
   spec_gradient (freeHessians ex_solver5) 1 [0] ex_x12 1 = 23 \<and>
   QPSolver_new ex_ext3 3 ex_store3 ex_graph3 = Inr ex_solver3 \<and>
   grad_wf (freeHessians ex_solver3) 1 [1] ex_x12 2 \<and>
   spec_gradient (freeHessians ex_solver3) 1 [1] ex_x12 0 = 0 \<and>
   spec_gradient (freeHessians ex_solver3) 1 [1] ex_x12 1 = 0 \<and>
   (\<exists>e. buildDualGraph ex_solver3 (view ex_store3 ex_graph3) ex_x12 useLeastSquare_default = Inl e) \<and>
   buildDualGraph ex_solver3 (view ex_store3 ex_graph3) ex_x12 useLeastSquare_default = Inl EndIterator"
proof -
  let ?out = "[Some (Jacobian \<lparr>jkeys = [1], jA = [[[0]]], jb = [- 2], jmodel = Some (Constrained_All 1)\<rparr>),
          Some (Jacobian \<lparr>jkeys = [1], jA = [[[1]]], jb = [0 :: real], jmodel = None\<rparr>)]"
  have run1: "buildDualGraph ex_solver (view ex_store ex_graph) ex_x5 useLeastSquare_default = Inr ?out"
    by (simp add: ex_defs dual_defs step_defs)
  have g1: "gradf (freeHessians ex_solver) 0 [0] ex_x5 = Inr [- 2]"
    by (simp add: ex_defs dual_defs vv_at_def)
  have a1: "(0, [0]) \<in> set (freeHessianFactorIndex ex_solver) \<and> [0 :: nat] \<noteq> [] \<and>
      freeHessians ex_solver = ex_hessian # [] \<and> 0 \<in> set (hkeys ex_hessian) \<and>
      grad_wf (freeHessians ex_solver) 0 [0] ex_x5
        (length (hinfo ex_hessian (hfind ex_hessian 0) (hfind ex_hessian 0)))"
    by (simp add: grad_wf_def G_block_def ex_defs dual_defs)
  from buildDualGraph_gradient [of 0 "[0]" ex_solver ex_hessian "[]" ex_x5] a1
  obtain g where g: "gradf (freeHessians ex_solver) 0 [0] ex_x5 = Inr g"
    and e: "\<forall>r < length g. g ! r = spec_gradient (freeHessians ex_solver) 0 [0] ex_x5 r"
    by blast
  from g g1 have gv: "g = [- 2]"
    by simp
  have "g ! 0 = spec_gradient (freeHessians ex_solver) 0 [0] ex_x5 0"
    using e [rule_format, of 0] by (simp add: gv)
  then have s1: "spec_gradient (freeHessians ex_solver) 0 [0] ex_x5 0 = - 2"
    by (simp add: gv)
  have g5: "gradf (freeHessians ex_solver5) 1 [0] ex_x12 = Inr [19, 23]"
    by (simp add: ex_defs dual_defs vv_at_def)
  have a5: "(1, [0]) \<in> set (freeHessianFactorIndex ex_solver5) \<and> [0 :: nat] \<noteq> [] \<and>
      freeHessians ex_solver5 = ex_hessian2 # [] \<and> 1 \<in> set (hkeys ex_hessian2) \<and>
      grad_wf (freeHessians ex_solver5) 1 [0] ex_x12
        (length (hinfo ex_hessian2 (hfind ex_hessian2 1) (hfind ex_hessian2 1)))"
    by (simp add: grad_wf_def G_block_def ex_defs dual_defs less_Suc_eq numeral_2_eq_2)
  from buildDualGraph_gradient [of 1 "[0]" ex_solver5 ex_hessian2 "[]" ex_x12] a5
  obtain h where h: "gradf (freeHessians ex_solver5) 1 [0] ex_x12 = Inr h"
    and eh: "\<forall>r < length h. h ! r = spec_gradient (freeHessians ex_solver5) 1 [0] ex_x12 r"
    by blast
  from h g5 have hv: "h = [19, 23]"
    by simp
  have "h ! 0 = spec_gradient (freeHessians ex_solver5) 1 [0] ex_x12 0"
    using eh [rule_format, of 0] by (simp add: hv)
  then have s50: "spec_gradient (freeHessians ex_solver5) 1 [0] ex_x12 0 = 19"
    by (simp add: hv)
  have "h ! 1 = spec_gradient (freeHessians ex_solver5) 1 [0] ex_x12 1"
    using eh [rule_format, of 1] by (simp add: hv)
  then have s51: "spec_gradient (freeHessians ex_solver5) 1 [0] ex_x12 1 = 23"
    by (simp add: hv)
  have new3: "QPSolver_new ex_ext3 3 ex_store3 ex_graph3 = Inr ex_solver3"
    by (simp add: QPSolver_new_def Let_def isConstraintFactor_def insertKeys_def eval_nat_numeral
      unconstrainedHessiansOfConstrainedVars_def collectFactors_def VariableIndex_of_def
      allKeys_def touches_def fastset_insert_def index_at_def hess_defs ex_defs
      view_def load_def)
  have wf3: "grad_wf (freeHessians ex_solver3) 1 [1] ex_x12 2"
    by (simp add: grad_wf_def G_block_def ex_defs dual_defs)
  have s3: "spec_gradient (freeHessians ex_solver3) 1 [1] ex_x12 0 = 0 \<and>
      spec_gradient (freeHessians ex_solver3) 1 [1] ex_x12 1 = 0"
    by (simp add: spec_gradient_def factor_gradient_def block_product_def G_block_def hfind_def
      ex_defs eval_nat_numeral lessThan_Suc)
  have a3: "(1, [1]) \<in> set (freeHessianFactorIndex ex_solver3) \<and> [1 :: nat] \<noteq> [] \<and>
      freeHessians ex_solver3 = ex_hessian # [ex_hessian1] \<and> 1 \<notin> set (hkeys ex_hessian)"
    by (simp add: ex_defs)
  from buildDualGraph_gradient [of 1 "[1]" ex_solver3 ex_hessian "[ex_hessian1]" ex_x12
      "view ex_store3 ex_graph3" useLeastSquare_default] a3
  have fail: "\<exists>e. buildDualGraph ex_solver3 (view ex_store3 ex_graph3) ex_x12 useLeastSquare_default = Inl e"
    by blast
  have run3: "buildDualGraph ex_solver3 (view ex_store3 ex_graph3) ex_x12 useLeastSquare_default = Inl EndIterator"
    by (simp add: ex_defs dual_defs step_defs)
  from run1 s1 g5 s50 s51 new3 wf3 s3 fail run3 show ?thesis
    by blast
qed

text \<open>
  Claim C9. The dimension \<open>buildDualGraph\<close> reads for a variable \<open>v\<close> depends on the
  factor at index \<open>0\<close> of the cost subgraph only, not on the factors listed for \<open>v\<close>. When
  that first factor has the key \<open>v\<close>, the dimension is the one \<open>v\<close> has in it, and a
  gradient that is returned has this length. When the first factor does not have the
  key, the lookup is made at the position \<open>end()\<close> with no guard before it: it has no
  value in the model, and with it the gradient and the step of \<open>buildDualGraph\<close> for \<open>v\<close>
  fail, whatever the factors listed for \<open>v\<close> are.
\<close>

theorem xiDim_from_first_factor:
  "xiDimOf (F0 # rest) xiKey = xiDimOf [F0] xiKey \<and>
   (xiKey \<in> set (hkeys F0) \<longrightarrow>
      hfind F0 xiKey < length (hkeys F0) \<and> hkeys F0 ! hfind F0 xiKey = xiKey \<and>
      xiDimOf (F0 # rest) xiKey = Inr (length (hinfo F0 (hfind F0 xiKey) (hfind F0 xiKey))) \<and>
      (\<forall>g. gradf (F0 # rest) xiKey xiFactors x0 = Inr g \<longrightarrow>
         length g = length (hinfo F0 (hfind F0 xiKey) (hfind F0 xiKey)))) \<and>
   (xiKey \<notin> set (hkeys F0) \<longrightarrow>
      xiDimOf (F0 # rest) xiKey = Inl EndIterator \<and>
      gradf (F0 # rest) xiKey xiFactors x0 = Inl EndIterator \<and>
      (xiFactors \<noteq> [] \<and> freeHessians solver = F0 # rest \<longrightarrow>
         dualStep solver graph x0 ls (xiKey, xiFactors) dualGraph = Inl EndIterator))"
proof (intro conjI impI)
  show "xiDimOf (F0 # rest) xiKey = xiDimOf [F0] xiKey"
    by (simp add: xiDimOf_def hess_at_def)
next
  assume v: "xiKey \<in> set (hkeys F0)"
  then show less: "hfind F0 xiKey < length (hkeys F0)"
    by (simp add: hfind_less)
  from v show "hkeys F0 ! hfind F0 xiKey = xiKey"
    by (rule hfind_nth)
  from less show dim: "xiDimOf (F0 # rest) xiKey =
      Inr (length (hinfo F0 (hfind F0 xiKey) (hfind F0 xiKey)))"
    by (simp add: xiDimOf_def hess_at_def getDim_def)
  show "\<forall>g. gradf (F0 # rest) xiKey xiFactors x0 = Inr g \<longrightarrow>
         length g = length (hinfo F0 (hfind F0 xiKey) (hfind F0 xiKey))"
    using gradf_length [OF _ dim] by blast
next
  assume v: "xiKey \<notin> set (hkeys F0)"
  then have e: "hfind F0 xiKey = length (hkeys F0)"
    by (rule hfind_end)
  then show dim: "xiDimOf (F0 # rest) xiKey = Inl EndIterator"
    by (simp add: xiDimOf_def hess_at_def getDim_def)
  then show g: "gradf (F0 # rest) xiKey xiFactors x0 = Inl EndIterator"
    by (simp add: gradf_def)
  assume "xiFactors \<noteq> [] \<and> freeHessians solver = F0 # rest"
  with g show "dualStep solver graph x0 ls (xiKey, xiFactors) dualGraph = Inl EndIterator"
    by (simp add: dualStep_def)
qed

text \<open>
  A cost subgraph whose first factor is on the variable \<open>0\<close> and whose second factor is
  the only one on the variable \<open>1\<close>: the dimension of \<open>0\<close> is found, the lookup for \<open>1\<close> is
  made in the first factor and fails, and so does \<open>buildDualGraph\<close>.
\<close>

theorem xiDim_from_first_factor_witness:
  "xiDimOf (ex_hessian # [ex_hessian2]) 0 = Inr (length (hinfo ex_hessian (hfind ex_hessian 0) (hfind ex_hessian 0))) \<and>
   xiDimOf (ex_hessian # [ex_hessian2]) 1 = Inl EndIterator \<and>
   dualStep ex_solver2 (view ex_store ex_graph) ex_x12 False (1, [1]) [] = Inl EndIterator \<and>
   buildDualGraph ex_solver2 (view ex_store ex_graph) ex_x12 False = Inl EndIterator"
proof -
  have in0: "0 \<in> set (hkeys ex_hessian)"
    by (simp add: ex_defs)
  have out1: "1 \<notin> set (hkeys ex_hessian)"
    by (simp add: ex_defs)
  have fh: "[1 :: nat] \<noteq> [] \<and> freeHessians ex_solver2 = ex_hessian # [ex_hessian2]"
    by (simp add: ex_defs)
  from xiDim_from_first_factor [of ex_hessian "[ex_hessian2]" 0] in0
  have first: "xiDimOf (ex_hessian # [ex_hessian2]) 0 =
      Inr (length (hinfo ex_hessian (hfind ex_hessian 0) (hfind ex_hessian 0)))"
    by blast
  from xiDim_from_first_factor [of ex_hessian "[ex_hessian2]" 1 "[1]" ex_x12 ex_solver2
      "view ex_store ex_graph" False "[]"] out1 fh
  have second: "xiDimOf (ex_hessian # [ex_hessian2]) 1 = Inl EndIterator"
    and third: "dualStep ex_solver2 (view ex_store ex_graph) ex_x12 False (1, [1]) [] = Inl EndIterator"
    by blast+
  have whole: "buildDualGraph ex_solver2 (view ex_store ex_graph) ex_x12 False = Inl EndIterator"
    by (simp add: ex_defs dual_defs step_defs)
  from first second third whole show ?thesis
    by simp
qed

end
